theory Spec2Isabelle
  imports Main "HOL-Library.Signed_Division"
begin

text \<open>
  Elliptic-curve arithmetic in Jacobian coordinates, after \<^verbatim>\<open>ecc_bitcoin_jacobi.js\<close>:
  the half extended Euclidean algorithm and the modular inverse, field multiplication
  and division, the points of a curve with their affine coordinates and text form,
  membership, doubling, addition and scalar multiplication, and the curve secp256k1.
  Each source function is a definition of the same name; a call that may throw returns a
  sum, with the exception on the left.
\<close>

unbundle bit_operations_syntax

section \<open>The big-integer capability\<close>

text \<open>
  The arithmetic of \<^verbatim>\<open>ecc_bitcoin_jacobi.js\<close> runs on the arbitrary-precision signed
  integers of BigInteger.js, which is not part of the sources.  HOL's \<^typ>\<open>int\<close> is that
  type.  Addition, subtraction, multiplication, \<^verbatim>\<open>abs\<close> and \<^verbatim>\<open>equals\<close> are the
  operations of \<^typ>\<open>int\<close>.  Division is the one place where the two differ: the library
  truncates towards zero, so that a remainder carries the sign of the dividend, and it
  throws on a zero divisor.
\<close>

datatype js_error = DivideByZero | ModPowZeroModulus

text \<open>
  Modelled from the spec: the big-integer capability's \<^verbatim>\<open>mod\<close>, the remainder of
  the truncating division (the library throws "Cannot divide by zero").  The quotient
  and the remainder that \<^verbatim>\<open>divmod\<close> returns for a non-zero divisor are \<open>sdiv\<close> and
  \<open>smod\<close>.
\<close>

definition bi_mod :: "int \<Rightarrow> int \<Rightarrow> js_error + int" where
  "bi_mod k l = (if l = 0 then Inl DivideByZero else Inr (k smod l))"

text \<open>
  Modelled from the spec: the big-integer capability's \<^verbatim>\<open>modPow\<close> for a positive
  exponent; the code uses the exponents 2 and 3 (the library throws "Cannot take modPow
  with modulus 0").  The library reduces the base and every product with \<^verbatim>\<open>mod\<close>,
  so the result carries the sign of the power.
\<close>

definition bi_modPow :: "int \<Rightarrow> nat \<Rightarrow> int \<Rightarrow> js_error + int" where
  "bi_modPow k e l = (if l = 0 then Inl ModPowZeroModulus else Inr ((k ^ e) smod l))"

text \<open>
  Modelled from the spec: the \<^verbatim>\<open>sign\<close> flag of a big integer, true exactly for the
  negative numbers.
\<close>

definition bi_sign :: "int \<Rightarrow> bool" where
  "bi_sign k = (k < 0)"

section \<open>Modular inverse\<close>

text \<open>
  The loop of \<^verbatim>\<open>half_extended_gcd\<close>, on the four variables it updates.  The call of
  \<^verbatim>\<open>divmod\<close> is reached only under the loop guard, with a non-zero divisor, so it
  cannot throw.
\<close>

function half_extended_gcd_loop :: "int \<Rightarrow> int \<Rightarrow> int \<Rightarrow> int \<Rightarrow> int \<times> int" where
  "half_extended_gcd_loop lastrem rem x lastx =
     (if rem = 0 then (lastrem, lastx)
      else let quotient = lastrem sdiv rem;
               rem' = lastrem smod rem
           in half_extended_gcd_loop rem rem' (lastx - quotient * x) x)"
  by pat_completeness auto
termination
  apply (relation "measure (\<lambda>(lastrem, rem, x, lastx). nat \<bar>rem\<bar>)")
   apply simp
  subgoal for lastrem rem x lastx
    using smod_int_range [where a = lastrem and b = rem] by auto
  done

declare half_extended_gcd_loop.simps [simp del]

definition half_extended_gcd :: "int \<Rightarrow> int \<Rightarrow> int \<times> int" where
  "half_extended_gcd aa bb = half_extended_gcd_loop \<bar>aa\<bar> \<bar>bb\<bar> 0 1"

text \<open>
  \<^verbatim>\<open>modular_inverse\<close> writes to the console and then returns (or throws, when the
  modulus is zero).  The model returns both: the lines written, and the result.
\<close>

definition modular_inverse :: "int \<Rightarrow> int \<Rightarrow> string list \<times> (js_error + int)" where
  "modular_inverse a m =
     (let temp = half_extended_gcd a m;
          console = (if fst temp \<noteq> 1 then [''No inverse found''] else [])
      in (console,
          case bi_mod (snd temp) m of
            Inl e \<Rightarrow> Inl e
          | Inr inverse' \<Rightarrow>
              Inr (if bi_sign inverse' then inverse' + m else inverse')))"

section \<open>Curves and points\<close>

text \<open>
  An \<^verbatim>\<open>ECcurve\<close> object carries the prime \<^verbatim>\<open>p\<close>, the coefficients \<^verbatim>\<open>a\<close> and
  \<^verbatim>\<open>b\<close> and the order \<^verbatim>\<open>n\<close> of its generator.  The generator \<^verbatim>\<open>G\<close> is a point,
  and a point refers to its curve, so the generator is a constant of its own below.
  An \<^verbatim>\<open>ECpoint\<close> object carries its curve and the Jacobian coordinates.
\<close>

record ECcurve =
  curve_p :: int
  curve_a :: int
  curve_b :: int
  curve_n :: int

record ECpoint =
  pt_curve :: ECcurve
  pt_x :: int
  pt_y :: int
  pt_z :: int

text \<open>Sequencing of calls that may throw: the first exception ends the computation.\<close>

definition and_then :: "js_error + 'a \<Rightarrow> ('a \<Rightarrow> js_error + 'b) \<Rightarrow> js_error + 'b" where
  "and_then r f = (case r of Inl e \<Rightarrow> Inl e | Inr v \<Rightarrow> f v)"

text \<open>The sign fix that follows a subtraction: \<^verbatim>\<open>if(v.sign) v = v.add(this.p)\<close>.\<close>

definition add_p_if_sign :: "ECcurve \<Rightarrow> int \<Rightarrow> int" where
  "add_p_if_sign c v = (if bi_sign v then v + curve_p c else v)"

definition field_mul :: "ECcurve \<Rightarrow> int \<Rightarrow> int \<Rightarrow> js_error + int" where
  "field_mul c a b = bi_mod (a * b) (curve_p c)"

text \<open>
  \<^verbatim>\<open>field_div\<close> receives the number that \<^verbatim>\<open>modular_inverse\<close> returns; the lines
  written to the console are not part of it.
\<close>

definition field_div :: "ECcurve \<Rightarrow> int \<Rightarrow> int \<Rightarrow> js_error + int" where
  "field_div c num den =
     and_then (bi_mod den (curve_p c)) (\<lambda>den'.
     and_then (snd (modular_inverse den' (curve_p c))) (\<lambda>inverse_den.
     and_then (bi_mod num (curve_p c)) (\<lambda>num'.
     field_mul c num' inverse_den)))"

definition identity :: "ECcurve \<Rightarrow> ECpoint" where
  "identity c = \<lparr>pt_curve = c, pt_x = curve_p c, pt_y = 0, pt_z = 1\<rparr>"

definition get_x :: "ECpoint \<Rightarrow> js_error + int" where
  "get_x Q =
     and_then (bi_modPow (pt_z Q) 2 (curve_p (pt_curve Q))) (\<lambda>z2.
     field_div (pt_curve Q) (pt_x Q) z2)"

definition get_y :: "ECpoint \<Rightarrow> js_error + int" where
  "get_y Q =
     and_then (bi_modPow (pt_z Q) 3 (curve_p (pt_curve Q))) (\<lambda>z3.
     field_div (pt_curve Q) (pt_y Q) z3)"

definition touches :: "ECcurve \<Rightarrow> ECpoint \<Rightarrow> js_error + bool" where
  "touches c Q =
     and_then (get_x Q) (\<lambda>x.
     and_then (get_y Q) (\<lambda>y.
     and_then (bi_mod (y * y) (curve_p c)) (\<lambda>y2.
     and_then (bi_mod (x * x) (curve_p c)) (\<lambda>xx.
     and_then (field_mul c (xx + curve_a c) x) (\<lambda>x3a.
     and_then (bi_mod (x3a + curve_b c) (curve_p c)) (\<lambda>x3ab.
     Inr (y2 = x3ab)))))))"

definition tangent :: "ECcurve \<Rightarrow> ECpoint \<Rightarrow> js_error + int" where
  "tangent c Q = field_div c (pt_x Q * pt_x Q * 3 + curve_a c) (pt_y Q * 2)"

definition double :: "ECcurve \<Rightarrow> ECpoint \<Rightarrow> js_error + ECpoint" where
  "double c Q =
     (if pt_x Q = curve_p c then Inr Q
      else
        and_then (bi_mod (pt_x Q * pt_y Q * pt_y Q * 4) (curve_p c)) (\<lambda>S.
        let Z2 = pt_z Q * pt_z Q in
        and_then (bi_mod (Z2 * Z2) (curve_p c)) (\<lambda>Z4.
        let M = pt_x Q * pt_x Q * 3 + curve_a c * Z4 in
        and_then (bi_mod (M * M - S * 2) (curve_p c)) (\<lambda>x0.
        let x = add_p_if_sign c x0;
            Y2 = pt_y Q * pt_y Q in
        and_then (bi_mod (M * (S - x) - Y2 * Y2 * 8) (curve_p c)) (\<lambda>y0.
        let y = add_p_if_sign c y0 in
        and_then (bi_mod (pt_z Q * pt_y Q * 2) (curve_p c)) (\<lambda>z.
        Inr \<lparr>pt_curve = c, pt_x = x, pt_y = y, pt_z = z\<rparr>))))))"

definition add :: "ECcurve \<Rightarrow> ECpoint \<Rightarrow> ECpoint \<Rightarrow> js_error + ECpoint" where
  "add c Q1 Q2 =
     (if pt_x Q1 = curve_p c then Inr Q2
      else if pt_x Q2 = curve_p c then Inr Q1
      else
        let Q1z2 = pt_z Q1 * pt_z Q1;
            Q2z2 = pt_z Q2 * pt_z Q2 in
        and_then (bi_mod (pt_x Q1 * Q2z2) (curve_p c)) (\<lambda>xs1.
        and_then (bi_mod (pt_x Q2 * Q1z2) (curve_p c)) (\<lambda>xs2.
        and_then (bi_mod (pt_y Q1 * Q2z2 * pt_z Q2) (curve_p c)) (\<lambda>ys1.
        and_then (bi_mod (pt_y Q2 * Q1z2 * pt_z Q1) (curve_p c)) (\<lambda>ys2.
        if xs1 = xs2 then
          (if ys1 = ys2 then double c Q1 else Inr (identity c))
        else
          and_then (bi_mod (xs2 - xs1) (curve_p c)) (\<lambda>xd0.
          let xd = add_p_if_sign c xd0 in
          and_then (bi_mod (ys2 - ys1) (curve_p c)) (\<lambda>yd0.
          let yd = add_p_if_sign c yd0 in
          and_then (bi_mod (xd * xd) (curve_p c)) (\<lambda>xd2.
          and_then (bi_mod (xd2 * xd) (curve_p c)) (\<lambda>xd3.
          and_then (bi_mod (yd * yd - xd3 - xs1 * xd2 * 2) (curve_p c)) (\<lambda>x0.
          let x = add_p_if_sign c x0 in
          and_then (bi_mod (yd * (xs1 * xd2 - x) - ys1 * xd3) (curve_p c)) (\<lambda>y0.
          let y = add_p_if_sign c y0 in
          and_then (bi_mod (xd * pt_z Q1 * pt_z Q2) (curve_p c)) (\<lambda>z.
          Inr \<lparr>pt_curve = c, pt_x = x, pt_y = y, pt_z = z\<rparr>))))))))))))"

text \<open>
  The loop of \<^verbatim>\<open>mul\<close>.  \<^verbatim>\<open>m.and(1)\<close> and \<^verbatim>\<open>m.shiftRight(1)\<close> are the bit
  operations of \<^typ>\<open>int\<close>; on a non-negative scalar the shift is the division by two
  and the lowest bit is the remainder.  On a negative scalar the operations follow the
  two's complement reading of the library; nothing below depends on it.
  Nothing in the loop bounds the number of iterations, so the loop is a partial function:
  \<^term>\<open>None\<close> is a run that never ends, \<^term>\<open>Some (Inl e)\<close> a run that throws.
\<close>

partial_function (option) mul_loop ::
  "ECcurve \<Rightarrow> ECpoint \<Rightarrow> ECpoint \<Rightarrow> int \<Rightarrow> (js_error + ECpoint) option" where
  "mul_loop c R Q m =
     (if m = 0 then Some (Inr R)
      else
        case (if m AND 1 = 1 then add c R Q else Inr R) of
          Inl e \<Rightarrow> Some (Inl e)
        | Inr R' \<Rightarrow>
            (let m' = drop_bit 1 m in
             (case (if m' \<noteq> 0 then double c Q else Inr Q) of
                Inl e \<Rightarrow> Some (Inl e)
              | Inr Q' \<Rightarrow> mul_loop c R' Q' m')))"

declare mul_loop.simps [code]

definition mul :: "ECcurve \<Rightarrow> ECpoint \<Rightarrow> int \<Rightarrow> (js_error + ECpoint) option" where
  "mul c Q i = mul_loop c (identity c) Q i"

subsection \<open>Text form\<close>

text \<open>
  Modelled from the spec: \<^verbatim>\<open>toString(16)\<close> of the big-integer capability, lowercase
  hexadecimal digits without a prefix, most significant digit first, and a minus sign in
  front of a negative number.
\<close>

definition hex_digit :: "nat \<Rightarrow> char" where
  "hex_digit d = ''0123456789abcdef'' ! (d mod 16)"

function hex_digits :: "int \<Rightarrow> string" where
  "hex_digits k =
     (if k < 16 then [hex_digit (nat k)]
      else hex_digits (k div 16) @ [hex_digit (nat (k mod 16))])"
  by pat_completeness auto
termination
  by (relation "measure nat") auto

declare hex_digits.simps [simp del]

definition bi_toString16 :: "int \<Rightarrow> string" where
  "bi_toString16 k = (if k < 0 then CHR ''-'' # hex_digits (- k) else hex_digits k)"

definition toString :: "ECpoint \<Rightarrow> js_error + string" where
  "toString Q =
     (if pt_x Q = curve_p (pt_curve Q) then Inr ''identity_point''
      else
        and_then (get_x Q) (\<lambda>gx.
        and_then (get_y Q) (\<lambda>gy.
        Inr (''('' @ bi_toString16 gx @ '', '' @ bi_toString16 gy @ '')''))))"

subsection \<open>The curve secp256k1\<close>

definition secp256k1 :: ECcurve where
  "secp256k1 =
     \<lparr>curve_p = 0xFFFFFFFFFFFFFFFFFFFFFFFFFFFFFFFFFFFFFFFFFFFFFFFFFFFFFFFEFFFFFC2F,
      curve_a = 0,
      curve_b = 7,
      curve_n = 0xFFFFFFFFFFFFFFFFFFFFFFFFFFFFFFFEBAAEDCE6AF48A03BBFD25E8CD0364141\<rparr>"

definition secp256k1_G :: ECpoint where
  "secp256k1_G =
     \<lparr>pt_curve = secp256k1,
      pt_x = 0x79BE667EF9DCBBAC55A06295CE870B07029BFCDB2DCE28D959F2815B16F81798,
      pt_y = 0x483ADA7726A3C4655DA4FBFC0E1108A8FD17B448A68554199C47D08FFB10D4B8,
      pt_z = 0x1\<rparr>"

section \<open>Vocabulary of the specification\<close>

text \<open>
  The coordinates of a point are canonical when each of them lies in the range from
  \<open>0\<close> to \<open>p - 1\<close>.
\<close>

definition in_range :: "ECcurve \<Rightarrow> ECpoint \<Rightarrow> bool" where
  "in_range c Q =
     (0 \<le> pt_x Q \<and> pt_x Q < curve_p c \<and>
      0 \<le> pt_y Q \<and> pt_y Q < curve_p c \<and>
      0 \<le> pt_z Q \<and> pt_z Q < curve_p c)"

text \<open>
  A small curve for concrete evaluation: \<open>y\<^sup>2 = x\<^sup>3 + 4\<close> over the field with five
  elements.  It has six points, among them \<open>(1, 0)\<close>, a point of order two.
\<close>

definition curve_5_0_4 :: ECcurve where
  "curve_5_0_4 = \<lparr>curve_p = 5, curve_a = 0, curve_b = 4, curve_n = 6\<rparr>"

text \<open>
  The number that a string of lowercase hexadecimal digits denotes, most significant
  digit first.
\<close>

definition hex_digit_value :: "char \<Rightarrow> int" where
  "hex_digit_value ch = int (length (takeWhile (\<lambda>d. d \<noteq> ch) ''0123456789abcdef''))"

definition hex_value :: "string \<Rightarrow> int" where
  "hex_value s = foldl (\<lambda>v ch. 16 * v + hex_digit_value ch) 0 s"

text \<open>Primality of the modulus, by trial division.\<close>

definition is_prime :: "int \<Rightarrow> bool" where
  "is_prime q = (1 < q \<and> (\<forall>d \<in> {2..<q}. \<not> d dvd q))"

text \<open>
  The textbook doubling of the affine point \<open>(x, y)\<close>, in the words of the specification:
  the slope of the tangent comes from the routine \<^verbatim>\<open>tangent\<close>, which divides in the
  field, and the doubled point is \<open>(s\<^sup>2 - 2x, s (x - x') - y)\<close>, reduced into the canonical
  range.  This is the reference that \<^verbatim>\<open>double\<close> is compared with; it is not part of the
  sources.
\<close>

definition textbook_double :: "ECcurve \<Rightarrow> int \<Rightarrow> int \<Rightarrow> js_error + (int \<times> int)" where
  "textbook_double c x y =
     and_then (tangent c \<lparr>pt_curve = c, pt_x = x, pt_y = y, pt_z = 1\<rparr>) (\<lambda>s.
     let x' = (s * s - 2 * x) mod curve_p c;
         y' = (s * (x - x') - y) mod curve_p c
     in Inr (x', y'))"

section \<open>Correctness of the modular inverse\<close>

subsection \<open>Truncating remainder and the sign fix\<close>

lemma smod_fix_eq_mod:
  fixes k m :: int
  assumes "0 < m"
  shows "(if bi_sign (k smod m) then k smod m + m else k smod m) = k mod m"
proof (cases "0 \<le> k")
  case True
  with assms show ?thesis
    by (simp add: bi_sign_def smod_mod_positive not_less)
next
  case False
  have "k mod m = (if - k mod m = 0 then 0 else m - (- k mod m))"
    using zmod_zminus1_eq_if [of "- k" m] by simp
  moreover have "k smod m = - (- k mod m)"
    using False assms by (simp add: signed_modulo_int_def sgn_if)
  moreover have "0 \<le> - k mod m"
    using assms by simp
  ultimately show ?thesis
    by (auto simp: bi_sign_def)
qed

lemma heg_loop_inv:
  assumes "half_extended_gcd_loop lastrem rem x lastx = (g, c)"
    and "0 \<le> lastrem" "0 \<le> rem"
    and "B dvd (lastx * A - lastrem)" "B dvd (x * A - rem)"
  shows "g = gcd lastrem rem \<and> B dvd (c * A - g)"
  using assms
proof (induction lastrem rem x lastx rule: half_extended_gcd_loop.induct)
  case (1 lastrem rem x lastx)
  show ?case
  proof (cases "rem = 0")
    case True
    with "1.prems" show ?thesis by (subst (asm) half_extended_gcd_loop.simps) simp
  next
    case False
    let ?q = "lastrem sdiv rem"
    let ?r = "lastrem smod rem"
    have r: "?r = lastrem - ?q * rem"
      by (simp add: minus_sdiv_mult_eq_smod)
    have pos: "0 < rem" using False "1.prems" by simp
    have r0: "0 \<le> ?r" using pos "1.prems" by (simp add: smod_int_compares)
    have rec: "half_extended_gcd_loop rem ?r (lastx - ?q * x) x = (g, c)"
      using "1.prems"(1) False by (subst (asm) half_extended_gcd_loop.simps) (simp add: Let_def)
    have "(lastx - ?q * x) * A - ?r = (lastx * A - lastrem) - ?q * (x * A - rem)"
      by (simp add: r algebra_simps)
    then have d: "B dvd ((lastx - ?q * x) * A - ?r)"
      using "1.prems" by simp
    have "g = gcd rem ?r \<and> B dvd (c * A - g)"
      using pos r0 d "1.prems"(5) by (intro "1.IH" [OF False refl refl rec]) simp_all
    moreover have "gcd rem ?r = gcd lastrem rem"
      by (simp add: smod_mod_positive pos r0 "1.prems" less_imp_le gcd.commute gcd_red_int[symmetric])
    ultimately show ?thesis by auto
  qed
qed

lemma heg_correct:
  assumes "half_extended_gcd a m = (g, c)"
  shows "g = gcd a m" and "m dvd (c * \<bar>a\<bar> - g)"
proof -
  have "g = gcd \<bar>a\<bar> \<bar>m\<bar> \<and> \<bar>m\<bar> dvd (c * \<bar>a\<bar> - g)"
    using assms unfolding half_extended_gcd_def
    by (rule heg_loop_inv) simp_all
  then show "g = gcd a m" and "m dvd (c * \<bar>a\<bar> - g)"
    by auto
qed

lemma modular_inverse_value:
  assumes "0 < m"
  shows "snd (modular_inverse a m) = Inr (snd (half_extended_gcd a m) mod m)"
  using assms smod_fix_eq_mod [OF assms]
  by (simp add: modular_inverse_def bi_mod_def Let_def)

lemma modular_inverse_console:
  "fst (modular_inverse a m) = (if gcd a m = 1 then [] else [''No inverse found''])"
  using heg_correct(1) [of a m]
  by (cases "half_extended_gcd a m") (simp add: modular_inverse_def Let_def)

lemma modular_inverse_cong:
  assumes "0 < m" and "snd (modular_inverse a m) = Inr x"
  shows "0 \<le> x" and "x < m" and "(\<bar>a\<bar> * x) mod m = gcd a m mod m"
proof -
  obtain g c where gc: "half_extended_gcd a m = (g, c)"
    by (cases "half_extended_gcd a m")
  have x: "x = c mod m"
    using assms modular_inverse_value [OF assms(1), of a] gc by simp
  then show "0 \<le> x" and "x < m" using assms by simp_all
  have "m dvd (c * \<bar>a\<bar> - g)" and g: "g = gcd a m"
    using heg_correct [OF gc] by simp_all
  then have "(c * \<bar>a\<bar>) mod m = g mod m"
    by (simp add: mod_eq_dvd_iff)
  moreover have "(\<bar>a\<bar> * x) mod m = (c * \<bar>a\<bar>) mod m"
    by (simp add: x mod_mult_right_eq mult.commute)
  ultimately show "(\<bar>a\<bar> * x) mod m = gcd a m mod m"
    using g by simp
qed

lemma is_prime_coprime:
  assumes "is_prime q" and "\<not> q dvd k"
  shows "coprime k q"
proof -
  define g where "g = gcd k q"
  have q: "1 < q" and nd: "\<And>d. 2 \<le> d \<Longrightarrow> d < q \<Longrightarrow> \<not> d dvd q"
    using assms(1) by (auto simp: is_prime_def)
  have d: "g dvd q" and d': "g dvd k" and g0: "0 \<le> g"
    by (simp_all add: g_def)
  have "g \<le> q" using d q by (intro zdvd_imp_le) simp_all
  moreover have "g \<noteq> q" using assms(2) d' by auto
  moreover have "g \<noteq> 0" using d q by auto
  ultimately have "g = 1" using nd [of g] d g0 by (cases "2 \<le> g") auto
  then show ?thesis by (simp add: coprime_iff_gcd_eq_1 g_def)
qed

lemma modular_inverse_unique:
  fixes a m x y :: int
  assumes "0 \<le> x" "x < m" "0 \<le> y" "y < m"
    and "(a * x) mod m = 1 mod m" "(a * y) mod m = 1 mod m"
  shows "y = x"
proof -
  have "y mod m = (y * (a * x)) mod m"
    using assms(5) by (metis mod_mult_right_eq mult.right_neutral)
  also have "y * (a * x) = x * (a * y)" by (simp add: ac_simps)
  also have "(x * (a * y)) mod m = x mod m"
    using assms(6) by (metis mod_mult_right_eq mult.right_neutral)
  finally show ?thesis using assms by simp
qed

lemma modular_inverse_returns:
  assumes "m \<noteq> 0"
  shows "\<exists>x. snd (modular_inverse a m) = Inr x"
  using assms by (simp add: modular_inverse_def bi_mod_def Let_def)

subsection \<open>The inverse of a non-negative number\<close>

text \<open>
  On a non-negative argument the routine is right.  For integers \<open>a \<ge> 0\<close> and
  \<open>m > 0\<close> with \<open>gcd a m = 1\<close>, \<^verbatim>\<open>modular_inverse(a, m)\<close> writes nothing to the
  console and returns the unique \<open>x\<close> in the range from \<open>0\<close> to \<open>m - 1\<close> with
  \<open>a x \<equiv> 1 (mod m)\<close>.  In particular, when the modulus is a prime \<open>p\<close> and \<open>a\<close>
  lies between \<open>1\<close> and \<open>p - 1\<close>, then \<open>(a * modular_inverse(a, p)) mod p = 1\<close>.
\<close>

lemma modular_inverse_nonneg:
  "(0 \<le> a \<and> 0 < m \<and> gcd a m = 1 \<longrightarrow>
      (\<exists>x. modular_inverse a m = ([], Inr x) \<and> 0 \<le> x \<and> x < m \<and> (a * x) mod m = 1 mod m \<and>
           (\<forall>y. 0 \<le> y \<and> y < m \<and> (a * y) mod m = 1 mod m \<longrightarrow> y = x))) \<and>
   (is_prime m \<and> 1 \<le> a \<and> a < m \<longrightarrow>
      (\<exists>x. modular_inverse a m = ([], Inr x) \<and> (a * x) mod m = 1))"
proof -
  have main: "\<exists>x. modular_inverse a m = ([], Inr x) \<and> 0 \<le> x \<and> x < m \<and> (a * x) mod m = 1 mod m \<and>
           (\<forall>y. 0 \<le> y \<and> y < m \<and> (a * y) mod m = 1 mod m \<longrightarrow> y = x)"
    if a: "0 \<le> a" and m: "0 < m" and g: "gcd a m = 1" for a m :: int
  proof -
    obtain x where x: "snd (modular_inverse a m) = Inr x"
      using modular_inverse_value [OF m] by blast
    have "fst (modular_inverse a m) = []"
      using g by (simp add: modular_inverse_console)
    with x have "modular_inverse a m = ([], Inr x)"
      by (cases "modular_inverse a m") simp
    moreover have r: "0 \<le> x" "x < m" "(a * x) mod m = 1 mod m"
      using modular_inverse_cong [OF m x] a g by simp_all
    moreover have "y = x" if "0 \<le> y \<and> y < m \<and> (a * y) mod m = 1 mod m" for y
      using that r by (intro modular_inverse_unique [of x m y a]) simp_all
    ultimately show ?thesis by blast
  qed
  have "\<exists>x. modular_inverse a m = ([], Inr x) \<and> (a * x) mod m = 1"
    if "is_prime m" "1 \<le> a" "a < m"
  proof -
    have "\<not> m dvd a" using that by (auto dest: zdvd_imp_le)
    then have "gcd a m = 1"
      using is_prime_coprime [OF that(1)] by (simp add: coprime_iff_gcd_eq_1)
    moreover have "1 < m" using that by (simp add: is_prime_def)
    ultimately show ?thesis using main [of a m] that by auto
  qed
  then show ?thesis using main [of a m] by (intro conjI impI) (elim conjE, blast)+
qed

lemma modular_inverse_nonneg_example:
  "(0::int) \<le> 3 \<and> (0::int) < 7 \<and> gcd (3::int) 7 = 1 \<and> is_prime 7 \<and> (1::int) \<le> 3 \<and> (3::int) < 7 \<and>
   modular_inverse 3 7 = ([], Inr 5) \<and> (3 * 5) mod 7 = (1::int)"
proof -
  have h: "is_prime 7" unfolding is_prime_def by code_simp
  have g: "gcd (3::int) 7 = 1" by code_simp
  obtain x where "modular_inverse 3 7 = ([], Inr x)" "0 \<le> x" "x < 7" "(3 * x) mod 7 = 1"
    using modular_inverse_nonneg [of 3 7] h g by auto
  moreover from this have "x = 5" by presburger
  ultimately show ?thesis using h g by simp
qed

subsection \<open>The inverse of a negative number\<close>

text \<open>
  \<^verbatim>\<open>half_extended_gcd\<close> takes the absolute value of its arguments and nothing
  restores the sign afterwards, so on a negative \<open>a\<close> the routine returns the inverse of
  \<open>\<bar>a\<bar>\<close>, which is the negative of the inverse of \<open>a\<close>.
\<close>

lemma modular_inverse_negative:
  assumes "a < 0" and "0 < m" and "gcd a m = 1"
  shows "\<exists>x. modular_inverse a m = ([], Inr x) \<and> 0 \<le> x \<and> x < m \<and>
           (a * x) mod m = (- 1) mod m"
proof -
  obtain x where x: "snd (modular_inverse a m) = Inr x"
    using modular_inverse_value [OF assms(2)] by blast
  have "fst (modular_inverse a m) = []"
    using assms(3) by (simp add: modular_inverse_console)
  with x have e: "modular_inverse a m = ([], Inr x)"
    by (cases "modular_inverse a m") simp
  have r: "0 \<le> x" "x < m" "(\<bar>a\<bar> * x) mod m = 1 mod m"
    using modular_inverse_cong [OF assms(2) x] assms(3) by simp_all
  have "(a * x) mod m = (- (\<bar>a\<bar> * x)) mod m"
    using assms(1) by simp
  also have "\<dots> = (- 1) mod m"
    using r(3) by (metis mod_minus_cong)
  finally show ?thesis using e r by blast
qed

text \<open>
  Claim C1.  For every pair of integers \<open>a\<close>, \<open>m\<close> with \<open>m > 0\<close> and
  \<open>gcd a m = 1\<close>, \<^verbatim>\<open>modular_inverse(a, m)\<close> is to return the unique \<open>x\<close> in the range
  from \<open>0\<close> to \<open>m - 1\<close> with \<open>a x \<equiv> 1 (mod m)\<close>.  The code does not do so at
  \<open>a = -2\<close>, \<open>m = 5\<close>: it returns \<open>3\<close>, and \<open>-2 * 3 = -6\<close> is congruent to \<open>4\<close>,
  not to \<open>1\<close>; the inverse of \<open>-2\<close> modulo \<open>5\<close> is \<open>2\<close>, which the code returns as
  the inverse of \<open>3\<close>.  Field division hands its denominator on after a truncating
  remainder, which keeps the sign, so \<^verbatim>\<open>field_div(1, -2)\<close> over the field with five
  elements returns \<open>3\<close> where \<^verbatim>\<open>field_div(1, 3)\<close> returns \<open>2\<close>, although \<open>-2\<close> and
  \<open>3\<close> are the same field element.
\<close>

theorem modular_inverse_negative_input:
  "(0::int) < 5 \<and> gcd (- 2 :: int) 5 = 1 \<and>
   modular_inverse (- 2) 5 = ([], Inr 3) \<and>
   (- 2 * 3) mod 5 = (4::int) \<and> (- 2 * 3) mod 5 \<noteq> (1::int) mod 5 \<and>
   modular_inverse 3 5 = ([], Inr 2) \<and> (- 2 * 2) mod 5 = (1::int) mod 5 \<and>
   field_div curve_5_0_4 1 (- 2) = Inr 3 \<and> field_div curve_5_0_4 1 3 = Inr 2"
  by code_simp

subsection \<open>No inverse\<close>

text \<open>
  Claim C6 as stated asks for an explicit failure when \<open>gcd a m \<noteq> 1\<close>.  The routine
  writes a line to the console and returns a number: for \<open>a = 2\<close> and \<open>m = 4\<close> it
  returns \<open>1\<close>.
\<close>

theorem modular_inverse_no_failure_counterexample:
  "gcd (2::int) 4 \<noteq> 1 \<and> modular_inverse 2 4 = ([''No inverse found''], Inr 1)"
  by (simp add: modular_inverse_def half_extended_gcd_def half_extended_gcd_loop.simps
      bi_mod_def bi_sign_def Let_def signed_modulo_int_def signed_divide_int_def)

text \<open>
  Claim C6, as amended.  For integers \<open>a\<close> and \<open>m \<noteq> 0\<close> with \<open>gcd a m \<noteq> 1\<close>,
  \<^verbatim>\<open>modular_inverse(a, m)\<close> writes the line \<^verbatim>\<open>No inverse found\<close> to the console and
  returns a number to its caller; for \<open>m > 0\<close> that number \<open>x\<close> lies in the range from
  \<open>0\<close> to \<open>m - 1\<close> and satisfies \<open>\<bar>a\<bar> x \<equiv> gcd a m (mod m)\<close>.  Field division by
  such an \<open>a\<close> on a curve with modulus \<open>m\<close> returns a number as well.
\<close>

theorem modular_inverse_no_inverse:
  assumes "m \<noteq> 0" and "gcd a m \<noteq> 1"
  shows "\<exists>x. modular_inverse a m = ([''No inverse found''], Inr x) \<and>
           (0 < m \<longrightarrow> 0 \<le> x \<and> x < m \<and> (\<bar>a\<bar> * x) mod m = gcd a m mod m) \<and>
           (\<forall>c num. curve_p c = m \<longrightarrow> (\<exists>v. field_div c num a = Inr v))"
proof -
  obtain x where x: "snd (modular_inverse a m) = Inr x"
    using modular_inverse_returns [OF assms(1)] by blast
  have "fst (modular_inverse a m) = [''No inverse found'']"
    using assms(2) by (simp add: modular_inverse_console)
  with x have "modular_inverse a m = ([''No inverse found''], Inr x)"
    by (cases "modular_inverse a m") simp
  moreover have "0 \<le> x \<and> x < m \<and> (\<bar>a\<bar> * x) mod m = gcd a m mod m" if "0 < m"
    using modular_inverse_cong [OF that x] by simp
  moreover have "\<exists>v. field_div c num a = Inr v" if "curve_p c = m" for c num
  proof -
    obtain i where "snd (modular_inverse (a smod m) m) = Inr i"
      using modular_inverse_returns [OF assms(1)] by blast
    then show ?thesis
      using that assms(1) by (simp add: field_div_def field_mul_def bi_mod_def and_then_def)
  qed
  ultimately show ?thesis by blast
qed

theorem modular_inverse_no_inverse_witness:
  "(4::int) \<noteq> 0 \<and> gcd (2::int) 4 \<noteq> 1 \<and>
   (\<exists>x. modular_inverse 2 4 = ([''No inverse found''], Inr x) \<and> 0 \<le> x \<and> x < 4)"
proof -
  have g: "gcd (2::int) 4 \<noteq> 1" by code_simp
  show ?thesis
    using modular_inverse_no_inverse [of 4 2, OF _ g] g by auto
qed

section \<open>The curve operations on a non-zero modulus\<close>

text \<open>
  With a modulus other than zero no call of \<^verbatim>\<open>mod\<close> throws, and with a positive modulus
  the sign fix after a truncating remainder yields the canonical representative.
\<close>

lemma and_then_simps [simp]:
  "and_then (Inr v) f = f v" "and_then (Inl e) f = Inl e"
  by (simp_all add: and_then_def)

lemma bi_mod_nonzero: "l \<noteq> 0 \<Longrightarrow> bi_mod k l = Inr (k smod l)"
  by (simp add: bi_mod_def)

lemma bi_modPow_nonzero: "l \<noteq> 0 \<Longrightarrow> bi_modPow k e l = Inr ((k ^ e) smod l)"
  by (simp add: bi_modPow_def)

lemma add_p_if_sign_smod: "0 < curve_p c \<Longrightarrow> add_p_if_sign c (k smod curve_p c) = k mod curve_p c"
  using smod_fix_eq_mod [of "curve_p c" k] by (simp add: add_p_if_sign_def)

lemma smod_nonneg: "0 \<le> k \<Longrightarrow> 0 < l \<Longrightarrow> k smod l = k mod l" for k l :: int
  by (simp add: smod_mod_positive)

lemma smod_eq_0_iff: "k smod l = 0 \<longleftrightarrow> l dvd k" for k l :: int
proof -
  have "k smod l = 0 \<longleftrightarrow> \<bar>k\<bar> mod \<bar>l\<bar> = 0"
    by (auto simp: signed_modulo_int_def sgn_if)
  also have "\<dots> \<longleftrightarrow> \<bar>l\<bar> dvd \<bar>k\<bar>"
    by (simp add: dvd_eq_mod_eq_0)
  finally show ?thesis by simp
qed

lemma smod_self: "k smod k = 0" for k :: int
  by (simp add: smod_eq_0_iff)

lemma double_closed_form:
  assumes "0 < curve_p c" and "pt_x Q \<noteq> curve_p c"
  shows "double c Q =
    (let p = curve_p c;
         S = (pt_x Q * pt_y Q * pt_y Q * 4) smod p;
         Z4 = (pt_z Q * pt_z Q * (pt_z Q * pt_z Q)) smod p;
         M = pt_x Q * pt_x Q * 3 + curve_a c * Z4;
         x = (M * M - S * 2) mod p;
         y = (M * (S - x) - pt_y Q * pt_y Q * (pt_y Q * pt_y Q) * 8) mod p;
         z = (pt_z Q * pt_y Q * 2) smod p
     in Inr \<lparr>pt_curve = c, pt_x = x, pt_y = y, pt_z = z\<rparr>)"
  using assms by (simp add: double_def bi_mod_nonzero add_p_if_sign_smod Let_def)

lemma add_closed_form:
  assumes "0 < curve_p c" and "pt_x Q1 \<noteq> curve_p c" and "pt_x Q2 \<noteq> curve_p c"
  shows "add c Q1 Q2 =
    (let p = curve_p c;
         xs1 = (pt_x Q1 * (pt_z Q2 * pt_z Q2)) smod p;
         xs2 = (pt_x Q2 * (pt_z Q1 * pt_z Q1)) smod p;
         ys1 = (pt_y Q1 * (pt_z Q2 * pt_z Q2) * pt_z Q2) smod p;
         ys2 = (pt_y Q2 * (pt_z Q1 * pt_z Q1) * pt_z Q1) smod p
     in if xs1 = xs2 then (if ys1 = ys2 then double c Q1 else Inr (identity c))
        else
          let xd = (xs2 - xs1) mod p;
              yd = (ys2 - ys1) mod p;
              xd2 = (xd * xd) smod p;
              xd3 = (xd2 * xd) smod p;
              x = (yd * yd - xd3 - xs1 * xd2 * 2) mod p;
              y = (yd * (xs1 * xd2 - x) - ys1 * xd3) mod p;
              z = (xd * pt_z Q1 * pt_z Q2) smod p
          in Inr \<lparr>pt_curve = c, pt_x = x, pt_y = y, pt_z = z\<rparr>)"
  using assms by (simp add: add_def bi_mod_nonzero add_p_if_sign_smod Let_def)

lemma double_in_range:
  assumes "in_range c Q"
  shows "\<exists>R. double c Q = Inr R \<and> in_range c R"
proof -
  have p: "0 < curve_p c" and x: "pt_x Q \<noteq> curve_p c"
    and nn: "0 \<le> pt_y Q" "0 \<le> pt_z Q"
    using assms by (auto simp: in_range_def)
  have "0 \<le> pt_z Q * pt_y Q * 2" using nn by simp
  then have "(pt_z Q * pt_y Q * 2) smod curve_p c = (pt_z Q * pt_y Q * 2) mod curve_p c"
    using p by (simp add: smod_nonneg)
  then show ?thesis
    using p by (simp add: double_closed_form [OF p x] Let_def in_range_def)
qed

lemma add_in_range:
  assumes "in_range c Q1" and "in_range c Q2"
  shows "\<exists>R. add c Q1 Q2 = Inr R \<and> (pt_x R \<noteq> curve_p c \<longrightarrow> in_range c R)"
proof -
  have p: "0 < curve_p c" and x: "pt_x Q1 \<noteq> curve_p c" "pt_x Q2 \<noteq> curve_p c"
    and nn: "0 \<le> pt_z Q1" "0 \<le> pt_z Q2"
    using assms by (auto simp: in_range_def)
  have "0 \<le> k * pt_z Q1 * pt_z Q2" if "0 \<le> k" for k using nn that by simp
  then have z: "(k mod curve_p c * pt_z Q1 * pt_z Q2) smod curve_p c
      = (k mod curve_p c * pt_z Q1 * pt_z Q2) mod curve_p c" for k
    using p by (simp add: smod_nonneg)
  show ?thesis
    using p double_in_range [OF assms(1)]
    by (auto simp: add_closed_form [OF p x] Let_def z in_range_def identity_def)
qed

lemma double_returns:
  assumes "curve_p c \<noteq> 0"
  shows "\<exists>R. double c Q = Inr R"
  using assms by (simp add: double_def bi_mod_nonzero Let_def)

lemma add_returns:
  assumes "curve_p c \<noteq> 0"
  shows "\<exists>R. add c Q1 Q2 = Inr R"
  using assms double_returns [OF assms, of Q1]
  by (auto simp: add_def bi_mod_nonzero Let_def)

lemma shift_right_decreases:
  fixes m :: int
  assumes "0 < m"
  shows "0 \<le> drop_bit 1 m" and "drop_bit 1 m < m"
  using assms by (simp_all add: drop_bit_eq_div)

lemma mul_loop_unfold:
  assumes "m \<noteq> 0"
    and "(if m AND 1 = 1 then add c R Q else Inr R) = Inr R'"
    and "(if drop_bit 1 m \<noteq> 0 then double c Q else Inr Q) = Inr Q'"
  shows "mul_loop c R Q m = mul_loop c R' Q' (drop_bit 1 m)"
  by (subst mul_loop.simps) (simp only: assms if_False sum.case Let_def)

lemma mul_loop_throws:
  assumes "m \<noteq> 0"
    and "(if m AND 1 = 1 then add c R Q else Inr R) = Inl e \<or>
         (if drop_bit 1 m \<noteq> 0 then double c Q else Inr Q) = Inl e"
  shows "\<exists>e'. mul_loop c R Q m = Some (Inl e')"
proof (cases "if m AND 1 = 1 then add c R Q else Inr R")
  case (Inl e1)
  show ?thesis
    by (subst mul_loop.simps) (simp only: assms(1) if_False Inl sum.case, blast)
next
  case (Inr R')
  with assms(2) have "(if drop_bit 1 m \<noteq> 0 then double c Q else Inr Q) = Inl e"
    by simp
  then show ?thesis
    by (subst mul_loop.simps) (simp only: assms(1) if_False Inr sum.case Let_def, blast)
qed

lemma mul_loop_terminates:
  assumes "0 \<le> m"
  shows "\<exists>r. mul_loop c R Q m = Some r"
  using assms
proof (induction "nat m" arbitrary: m R Q rule: less_induct)
  case less
  show ?case
  proof (cases "m = 0")
    case True
    then show ?thesis by (subst mul_loop.simps) simp
  next
    case False
    with less.prems have m: "0 < m" by simp
    have rec: "\<exists>r. mul_loop c R' Q' (drop_bit 1 m) = Some r" for R' Q'
      using shift_right_decreases [OF m] m by (intro less.hyps) simp_all
    show ?thesis
    proof (cases "if m AND 1 = 1 then add c R Q else Inr R")
      case (Inl e)
      then show ?thesis using mul_loop_throws [OF False, of c R Q e] by auto
    next
      case R': (Inr R')
      show ?thesis
      proof (cases "if drop_bit 1 m \<noteq> 0 then double c Q else Inr Q")
        case (Inl e)
        then show ?thesis using mul_loop_throws [OF False, of c R Q e] by auto
      next
        case (Inr Q')
        show ?thesis
          using rec [of R' Q'] by (simp only: mul_loop_unfold [OF False R' Inr])
      qed
    qed
  qed
qed

lemma mul_loop_returns:
  assumes "0 \<le> m" and "curve_p c \<noteq> 0"
  shows "\<exists>R'. mul_loop c R Q m = Some (Inr R')"
  using assms(1)
proof (induction "nat m" arbitrary: m R Q rule: less_induct)
  case less
  show ?case
  proof (cases "m = 0")
    case True
    then show ?thesis by (subst mul_loop.simps) simp
  next
    case False
    with less.prems have m: "0 < m" by simp
    have rec: "\<exists>r. mul_loop c R' Q' (drop_bit 1 m) = Some (Inr r)" for R' Q'
      using shift_right_decreases [OF m] m by (intro less.hyps) simp_all
    have "\<exists>R1. (if m AND 1 = 1 then add c R Q else Inr R) = Inr R1"
      using add_returns [OF assms(2), of R Q] by auto
    then obtain R1 where R1: "(if m AND 1 = 1 then add c R Q else Inr R) = Inr R1" ..
    have "\<exists>Q1. (if drop_bit 1 m \<noteq> 0 then double c Q else Inr Q) = Inr Q1"
      using double_returns [OF assms(2), of Q] by auto
    then obtain Q1 where Q1: "(if drop_bit 1 m \<noteq> 0 then double c Q else Inr Q) = Inr Q1" ..
    show ?thesis
      using rec [of R1 Q1] by (simp only: mul_loop_unfold [OF False R1 Q1])
  qed
qed

lemma field_div_returns:
  assumes "curve_p c \<noteq> 0"
  shows "\<exists>v. field_div c num den = Inr v"
proof -
  obtain i where "snd (modular_inverse (den smod curve_p c) (curve_p c)) = Inr i"
    using modular_inverse_returns [OF assms] by blast
  then show ?thesis
    using assms by (simp add: field_div_def field_mul_def bi_mod_nonzero)
qed

lemma field_div_range:
  assumes "0 < curve_p c" and "0 \<le> num" and "field_div c num den = Inr v"
  shows "0 \<le> v" and "v < curve_p c"
proof -
  let ?p = "curve_p c"
  obtain i where i: "snd (modular_inverse (den smod ?p) ?p) = Inr i"
    using modular_inverse_returns [of ?p "den smod ?p"] assms(1) by auto
  have v: "v = (num smod ?p * i) smod ?p"
    using assms(1,3) i by (simp add: field_div_def field_mul_def bi_mod_nonzero)
  have "0 \<le> i" using modular_inverse_cong(1) [OF assms(1) i] .
  moreover have "0 \<le> num smod ?p" using assms by (simp add: smod_nonneg)
  ultimately have "0 \<le> num smod ?p * i" by simp
  then have "v = (num smod ?p * i) mod ?p"
    using assms(1) v by (simp add: smod_nonneg)
  then show "0 \<le> v" and "v < ?p" using assms(1) by simp_all
qed

section \<open>Addition with the identity\<close>

text \<open>
  Claim C5.  For every point \<open>P\<close>, \<^verbatim>\<open>add(Identity, P)\<close> returns \<open>P\<close>, and for every
  finite point \<open>P\<close> (its X is not the sentinel \<open>p\<close>) \<^verbatim>\<open>add(P, Identity)\<close> returns
  \<open>P\<close>.  The same holds for any argument \<open>I\<close> that carries the sentinel in place of
  the identity point.  The argument itself comes back, before any arithmetic, so the
  affine coordinates agree.
\<close>

theorem add_identity:
  "add c (identity c) P = Inr P \<and>
   (pt_x P \<noteq> curve_p c \<longrightarrow> add c P (identity c) = Inr P) \<and>
   (pt_x I = curve_p c \<longrightarrow>
      add c I P = Inr P \<and> (pt_x P \<noteq> curve_p c \<longrightarrow> add c P I = Inr P))"
  by (simp add: add_def identity_def)

theorem add_identity_witness:
  "pt_x secp256k1_G \<noteq> curve_p secp256k1 \<and>
   pt_x (identity secp256k1) = curve_p secp256k1 \<and>
   add secp256k1 (identity secp256k1) secp256k1_G = Inr secp256k1_G \<and>
   add secp256k1 secp256k1_G (identity secp256k1) = Inr secp256k1_G"
proof -
  have "pt_x secp256k1_G \<noteq> curve_p secp256k1"
    by (simp add: secp256k1_G_def secp256k1_def)
  moreover have "pt_x (identity secp256k1) = curve_p secp256k1"
    by (simp add: identity_def)
  ultimately show ?thesis
    using add_identity [of secp256k1 secp256k1_G "identity secp256k1"] by simp
qed

section \<open>Canonical range of the results\<close>

text \<open>
  Claim C7.  For points \<open>Q1\<close>, \<open>Q2\<close> with all three coordinates in the range from \<open>0\<close>
  to \<open>p - 1\<close>, \<^verbatim>\<open>double\<close> returns a point with all coordinates in that range, and
  \<^verbatim>\<open>add\<close> returns a point that is either the identity (X equal to \<open>p\<close>) or has all
  coordinates in that range.
\<close>

theorem double_add_in_range:
  assumes "in_range c Q1" and "in_range c Q2"
  shows "(\<exists>R. double c Q1 = Inr R \<and> in_range c R) \<and>
         (\<exists>R. add c Q1 Q2 = Inr R \<and> (pt_x R \<noteq> curve_p c \<longrightarrow> in_range c R))"
  using double_in_range [OF assms(1)] add_in_range [OF assms] by simp

theorem double_add_in_range_witness:
  "in_range secp256k1 secp256k1_G \<and>
   (\<exists>R. double secp256k1 secp256k1_G = Inr R \<and> in_range secp256k1 R) \<and>
   (\<exists>R. add secp256k1 secp256k1_G secp256k1_G = Inr R \<and>
        (pt_x R \<noteq> curve_p secp256k1 \<longrightarrow> in_range secp256k1 R))"
proof -
  have "in_range secp256k1 secp256k1_G"
    by (simp add: in_range_def secp256k1_G_def secp256k1_def)
  then show ?thesis
    using double_add_in_range [of secp256k1 secp256k1_G secp256k1_G] by simp
qed

section \<open>Vertical pairs\<close>

lemma add_vertical:
  assumes "0 < curve_p c" and "pt_x Q1 \<noteq> curve_p c" and "pt_x Q2 \<noteq> curve_p c"
    and "(pt_x Q1 * (pt_z Q2 * pt_z Q2)) smod curve_p c = (pt_x Q2 * (pt_z Q1 * pt_z Q1)) smod curve_p c"
    and "(pt_y Q1 * (pt_z Q2 * pt_z Q2) * pt_z Q2) smod curve_p c
       \<noteq> (pt_y Q2 * (pt_z Q1 * pt_z Q1) * pt_z Q1) smod curve_p c"
  shows "add c Q1 Q2 = Inr (identity c)"
  unfolding add_closed_form [OF assms(1-3)] Let_def using assms(4,5) by simp

text \<open>
  For every point \<open>P = (x, y)\<close> with Z = 1, \<open>x\<close> in the range from \<open>0\<close> to
  \<open>p - 1\<close>, \<open>y\<close> in the range from \<open>1\<close> to \<open>p - 1\<close> and \<open>2 y \<noteq> p\<close> (which
  holds for every such \<open>y\<close> when \<open>p\<close> is odd), the cross-multiplied x agree and the
  cross-multiplied y differ, and \<^verbatim>\<open>add(P, (x, p - y))\<close> returns the identity point.
\<close>

lemma add_vertical_pair:
  assumes "0 \<le> x" and "x < curve_p c" and "0 < y" and "y < curve_p c" and "2 * y \<noteq> curve_p c"
  shows "add c \<lparr>pt_curve = c, pt_x = x, pt_y = y, pt_z = 1\<rparr>
               \<lparr>pt_curve = c, pt_x = x, pt_y = curve_p c - y, pt_z = 1\<rparr> = Inr (identity c)"
proof (rule add_vertical)
  let ?p = "curve_p c"
  show "0 < ?p" using assms by simp
  show "pt_x \<lparr>pt_curve = c, pt_x = x, pt_y = y, pt_z = 1\<rparr> \<noteq> ?p"
    and "pt_x \<lparr>pt_curve = c, pt_x = x, pt_y = ?p - y, pt_z = 1\<rparr> \<noteq> ?p"
    using assms by simp_all
  show "(pt_x \<lparr>pt_curve = c, pt_x = x, pt_y = y, pt_z = 1\<rparr> *
         (pt_z \<lparr>pt_curve = c, pt_x = x, pt_y = ?p - y, pt_z = 1\<rparr> *
          pt_z \<lparr>pt_curve = c, pt_x = x, pt_y = ?p - y, pt_z = 1\<rparr>)) smod ?p =
        (pt_x \<lparr>pt_curve = c, pt_x = x, pt_y = ?p - y, pt_z = 1\<rparr> *
         (pt_z \<lparr>pt_curve = c, pt_x = x, pt_y = y, pt_z = 1\<rparr> *
          pt_z \<lparr>pt_curve = c, pt_x = x, pt_y = y, pt_z = 1\<rparr>)) smod ?p"
    by simp
  have "y smod ?p = y mod ?p"
    by (rule smod_nonneg) (use assms in simp_all)
  also have "\<dots> = y"
    by (rule mod_pos_pos_trivial) (use assms in simp_all)
  finally have a: "y smod ?p = y" .
  have "(?p - y) smod ?p = (?p - y) mod ?p"
    by (rule smod_nonneg) (use assms in simp_all)
  also have "\<dots> = ?p - y"
    by (rule mod_pos_pos_trivial) (use assms in simp_all)
  finally have b: "(?p - y) smod ?p = ?p - y" .
  have "y smod ?p \<noteq> (?p - y) smod ?p"
    unfolding a b using assms(5) by linarith
  then show "(pt_y \<lparr>pt_curve = c, pt_x = x, pt_y = y, pt_z = 1\<rparr> *
         (pt_z \<lparr>pt_curve = c, pt_x = x, pt_y = ?p - y, pt_z = 1\<rparr> *
          pt_z \<lparr>pt_curve = c, pt_x = x, pt_y = ?p - y, pt_z = 1\<rparr>) *
          pt_z \<lparr>pt_curve = c, pt_x = x, pt_y = ?p - y, pt_z = 1\<rparr>) smod ?p \<noteq>
        (pt_y \<lparr>pt_curve = c, pt_x = x, pt_y = ?p - y, pt_z = 1\<rparr> *
         (pt_z \<lparr>pt_curve = c, pt_x = x, pt_y = y, pt_z = 1\<rparr> *
          pt_z \<lparr>pt_curve = c, pt_x = x, pt_y = y, pt_z = 1\<rparr>) *
          pt_z \<lparr>pt_curve = c, pt_x = x, pt_y = y, pt_z = 1\<rparr>) smod ?p"
    by (simp only: ECpoint.simps mult_1_right simp_thms)
qed

lemma add_vertical_pair_example:
  "0 \<le> pt_x secp256k1_G \<and> pt_x secp256k1_G < curve_p secp256k1 \<and>
   0 < pt_y secp256k1_G \<and> pt_y secp256k1_G < curve_p secp256k1 \<and>
   2 * pt_y secp256k1_G \<noteq> curve_p secp256k1 \<and>
   add secp256k1 \<lparr>pt_curve = secp256k1, pt_x = pt_x secp256k1_G, pt_y = pt_y secp256k1_G, pt_z = 1\<rparr>
     \<lparr>pt_curve = secp256k1, pt_x = pt_x secp256k1_G,
      pt_y = curve_p secp256k1 - pt_y secp256k1_G, pt_z = 1\<rparr> = Inr (identity secp256k1)"
proof -
  have h: "0 \<le> pt_x secp256k1_G" "pt_x secp256k1_G < curve_p secp256k1"
   "0 < pt_y secp256k1_G" "pt_y secp256k1_G < curve_p secp256k1"
   "2 * pt_y secp256k1_G \<noteq> curve_p secp256k1"
    by (simp_all add: secp256k1_G_def secp256k1_def)
  show ?thesis
    using h add_vertical_pair [OF h] by simp
qed

text \<open>
  At \<open>y = 0\<close> the partner \<open>(x, p - 0)\<close> has the same cross-multiplied y as \<open>P\<close>, and
  \<^verbatim>\<open>add\<close> hands the pair to \<^verbatim>\<open>double\<close>.
\<close>

lemma add_y_zero_doubles:
  assumes "0 < curve_p c" and "x \<noteq> curve_p c"
  shows "add c \<lparr>pt_curve = c, pt_x = x, pt_y = 0, pt_z = 1\<rparr>
               \<lparr>pt_curve = c, pt_x = x, pt_y = curve_p c - 0, pt_z = 1\<rparr>
         = double c \<lparr>pt_curve = c, pt_x = x, pt_y = 0, pt_z = 1\<rparr>"
  using assms by (simp add: add_closed_form Let_def smod_self)

text \<open>
  Claim C4.  For every finite point \<open>P = (x, y)\<close> on the curve with Z = 1,
  \<^verbatim>\<open>add(P, (x, p - y))\<close> is to return the identity point.  The code does not do so at
  \<open>y = 0\<close>.  On the curve \<open>y\<^sup>2 = x\<^sup>3 + 4\<close> over the field with five elements the point
  \<open>(1, 0)\<close> lies on the curve and is its own inverse.  \<^verbatim>\<open>add\<close> delegates the pair
  \<open>(1, 0)\<close>, \<open>(1, 5 - 0)\<close> to \<^verbatim>\<open>double\<close>, which has no case for \<open>y = 0\<close> and returns
  \<open>(4, 3, 0)\<close>: a triple with Z = 0 whose X is not the sentinel, so no later operation
  takes it for the identity, and its affine extraction is \<open>(0, 0)\<close>.  The same triple comes
  back from \<^verbatim>\<open>add(P, P)\<close>, \<^verbatim>\<open>double(P)\<close> and \<^verbatim>\<open>mul(P, 2)\<close>.  A vertical pair
  with \<open>y \<noteq> 0\<close> on the same curve, \<open>(3, 1)\<close> and \<open>(3, 4)\<close>, adds up to the identity.
\<close>

theorem add_vertical_pair_y_zero:
  "in_range curve_5_0_4 \<lparr>pt_curve = curve_5_0_4, pt_x = 1, pt_y = 0, pt_z = 1\<rparr> \<and>
   touches curve_5_0_4 \<lparr>pt_curve = curve_5_0_4, pt_x = 1, pt_y = 0, pt_z = 1\<rparr> = Inr True \<and>
   add curve_5_0_4
     \<lparr>pt_curve = curve_5_0_4, pt_x = 1, pt_y = 0, pt_z = 1\<rparr>
     \<lparr>pt_curve = curve_5_0_4, pt_x = 1, pt_y = 5 - 0, pt_z = 1\<rparr>
   = Inr \<lparr>pt_curve = curve_5_0_4, pt_x = 4, pt_y = 3, pt_z = 0\<rparr> \<and>
   \<lparr>pt_curve = curve_5_0_4, pt_x = 4, pt_y = 3, pt_z = 0\<rparr> \<noteq> identity curve_5_0_4 \<and>
   pt_x \<lparr>pt_curve = curve_5_0_4, pt_x = 4, pt_y = 3, pt_z = 0\<rparr> \<noteq> curve_p curve_5_0_4 \<and>
   add curve_5_0_4
     \<lparr>pt_curve = curve_5_0_4, pt_x = 1, pt_y = 0, pt_z = 1\<rparr>
     \<lparr>pt_curve = curve_5_0_4, pt_x = 1, pt_y = 0, pt_z = 1\<rparr>
   = Inr \<lparr>pt_curve = curve_5_0_4, pt_x = 4, pt_y = 3, pt_z = 0\<rparr> \<and>
   double curve_5_0_4 \<lparr>pt_curve = curve_5_0_4, pt_x = 1, pt_y = 0, pt_z = 1\<rparr>
   = Inr \<lparr>pt_curve = curve_5_0_4, pt_x = 4, pt_y = 3, pt_z = 0\<rparr> \<and>
   mul curve_5_0_4 \<lparr>pt_curve = curve_5_0_4, pt_x = 1, pt_y = 0, pt_z = 1\<rparr> 2
   = Some (Inr \<lparr>pt_curve = curve_5_0_4, pt_x = 4, pt_y = 3, pt_z = 0\<rparr>) \<and>
   get_x \<lparr>pt_curve = curve_5_0_4, pt_x = 4, pt_y = 3, pt_z = 0\<rparr> = Inr 0 \<and>
   get_y \<lparr>pt_curve = curve_5_0_4, pt_x = 4, pt_y = 3, pt_z = 0\<rparr> = Inr 0 \<and>
   add curve_5_0_4
     \<lparr>pt_curve = curve_5_0_4, pt_x = 3, pt_y = 1, pt_z = 1\<rparr>
     \<lparr>pt_curve = curve_5_0_4, pt_x = 3, pt_y = 5 - 1, pt_z = 1\<rparr>
   = Inr (identity curve_5_0_4)"
  by code_simp

section \<open>Termination of scalar multiplication\<close>

text \<open>
  Claim C8.  For every point \<open>Q\<close> and every scalar \<open>m \<ge> 0\<close> the loop of
  \<^verbatim>\<open>mul(Q, m)\<close> terminates, and on a non-zero modulus it returns a point; the right
  shift maps a positive scalar to a smaller non-negative one; \<^verbatim>\<open>mul(Q, 0)\<close> returns
  the identity point.
\<close>

theorem mul_terminates:
  assumes "0 \<le> m"
  shows "(\<exists>r. mul c Q m = Some r) \<and>
         (curve_p c \<noteq> 0 \<longrightarrow> (\<exists>R. mul c Q m = Some (Inr R))) \<and>
         (0 < m \<longrightarrow> 0 \<le> drop_bit 1 m \<and> drop_bit 1 m < m) \<and>
         mul c Q 0 = Some (Inr (identity c))"
proof -
  have "mul c Q 0 = Some (Inr (identity c))"
    unfolding mul_def by (subst mul_loop.simps) simp
  then show ?thesis
    using mul_loop_terminates [OF assms] mul_loop_returns [OF assms] shift_right_decreases [of m]
    by (simp add: mul_def)
qed

theorem mul_terminates_witness:
  "(0::int) \<le> 5 \<and> curve_p secp256k1 \<noteq> 0 \<and> (0::int) < 5 \<and>
   (\<exists>R. mul secp256k1 secp256k1_G 5 = Some (Inr R)) \<and>
   0 \<le> drop_bit 1 (5::int) \<and> drop_bit 1 (5::int) < 5 \<and>
   mul secp256k1 secp256k1_G 0 = Some (Inr (identity secp256k1))"
proof -
  have "curve_p secp256k1 \<noteq> 0" by (simp add: secp256k1_def)
  then show ?thesis
    using mul_terminates [of 5 secp256k1 secp256k1_G] by simp
qed

section \<open>Membership test on the identity\<close>

lemma modular_inverse_one:
  assumes "1 < m"
  shows "snd (modular_inverse 1 m) = Inr 1"
proof -
  have m: "0 < m" using assms by simp
  obtain x where x: "snd (modular_inverse 1 m) = Inr x"
    using modular_inverse_value [OF m] by blast
  have "0 \<le> x" "x < m" "x mod m = 1"
    using modular_inverse_cong [OF m x] assms by simp_all
  then have "x = 1" by simp
  with x show ?thesis by simp
qed

lemma field_div_by_one:
  assumes "1 < curve_p c"
  shows "field_div c num 1 = Inr ((num smod curve_p c) smod curve_p c)"
  using assms modular_inverse_one [OF assms]
  by (simp add: field_div_def field_mul_def bi_mod_nonzero smod_nonneg)

text \<open>
  Claim C10.  On a curve with positive modulus \<open>p\<close> and \<open>b\<close> not divisible by \<open>p\<close>,
  the affine coordinates extracted from the identity point \<open>(p, 0, 1)\<close> are \<open>(0, 0)\<close>
  and \<^verbatim>\<open>touches\<close> returns false on it.
\<close>

theorem touches_identity:
  assumes "0 < curve_p c" and "\<not> curve_p c dvd curve_b c"
  shows "get_x (identity c) = Inr 0 \<and> get_y (identity c) = Inr 0 \<and>
         touches c (identity c) = Inr False"
proof -
  have p: "1 < curve_p c"
    using assms by (cases "curve_p c = 1") auto
  have one: "(1::int) smod curve_p c = 1"
    using p by (simp add: smod_nonneg)
  have gx: "get_x (identity c) = Inr 0"
    using p by (simp add: get_x_def identity_def bi_modPow_nonzero one field_div_by_one smod_self)
  have gy: "get_y (identity c) = Inr 0"
    using p by (simp add: get_y_def identity_def bi_modPow_nonzero one field_div_by_one)
  have "touches c (identity c) = Inr False"
    using p assms(2) by (simp add: touches_def gx gy bi_mod_nonzero field_mul_def smod_eq_0_iff)
  with gx gy show ?thesis by simp
qed

theorem touches_identity_witness:
  "0 < curve_p secp256k1 \<and> \<not> curve_p secp256k1 dvd curve_b secp256k1 \<and>
   touches secp256k1 (identity secp256k1) = Inr False"
proof -
  have h: "0 < curve_p secp256k1" "\<not> curve_p secp256k1 dvd curve_b secp256k1"
    by (simp_all add: secp256k1_def)
  then show ?thesis
    using touches_identity [of secp256k1] by simp
qed

section \<open>Doubling against the tangent construction\<close>

subsection \<open>Congruences of the Jacobian doubling formula\<close>

text \<open>
  The steps from the congruences that define the affine point, the slope and the
  intermediate values of \<^verbatim>\<open>double\<close> to the congruences of the doubled point, each an
  explicit combination of its hypotheses.
\<close>

lemma dbl_slope:
  fixes p :: int
  assumes "p dvd (xa * Z^2 - X)" and "p dvd (ya * Z^3 - Y)"
    and "p dvd (s * (2 * ya) - (3 * xa^2 + a))"
    and "p dvd (Z4 - Z^4)" and "p dvd (Z' - 2 * Y * Z)"
  shows "p dvd (Z' * s - (3 * X^2 + a * Z4))"
proof -
  have "Z' * s - (3 * X^2 + a * Z4) =
      s * (Z' - 2 * Y * Z) - 2 * Z * s * (ya * Z^3 - Y) + Z^4 * (s * (2 * ya) - (3 * xa^2 + a))
      + 3 * (xa * Z^2 + X) * (xa * Z^2 - X) - a * (Z4 - Z^4)"
    by algebra
  then show ?thesis
    using assms by (simp only: dvd_add dvd_diff dvd_mult)
qed

lemma dbl_S:
  fixes p :: int
  assumes "p dvd (xa * Z^2 - X)" and "p dvd (S - 4 * X * Y^2)" and "p dvd (Z' - 2 * Y * Z)"
  shows "p dvd (Z'^2 * xa - S)"
proof -
  have "Z'^2 * xa - S =
      xa * (Z' + 2 * Y * Z) * (Z' - 2 * Y * Z) + 4 * Y^2 * (xa * Z^2 - X) - (S - 4 * X * Y^2)"
    by algebra
  then show ?thesis
    using assms by (simp only: dvd_add dvd_diff dvd_mult)
qed

lemma dbl_x:
  fixes p :: int
  assumes "p dvd (Z' * s - M)" and "p dvd (Z'^2 * xa - S)" and "p dvd (X' - (M^2 - 2 * S))"
  shows "p dvd (Z'^2 * (s^2 - 2 * xa) - X')"
proof -
  have "Z'^2 * (s^2 - 2 * xa) - X' =
      (Z' * s + M) * (Z' * s - M) - 2 * (Z'^2 * xa - S) - (X' - (M^2 - 2 * S))"
    by algebra
  then show ?thesis
    using assms by (simp only: dvd_add dvd_diff dvd_mult)
qed

lemma dbl_ya:
  fixes p :: int
  assumes "p dvd (ya * Z^3 - Y)" and "p dvd (Z' - 2 * Y * Z)"
  shows "p dvd (Z'^3 * ya - 8 * Y^4)"
proof -
  have "Z'^3 * ya - 8 * Y^4 =
      ya * (Z'^2 + Z' * (2 * Y * Z) + (2 * Y * Z)^2) * (Z' - 2 * Y * Z) + 8 * Y^3 * (ya * Z^3 - Y)"
    by algebra
  then show ?thesis
    using assms by (simp only: dvd_add dvd_diff dvd_mult)
qed

lemma dbl_y:
  fixes p :: int
  assumes "p dvd (Z' * s - M)" and "p dvd (Z'^2 * xa - S)" and "p dvd (Z'^2 * x3 - X')"
    and "p dvd (Z'^3 * ya - 8 * Y^4)" and "p dvd (Y' - (M * (S - X') - 8 * Y^4))"
  shows "p dvd (Z'^3 * (s * (xa - x3) - ya) - Y')"
proof -
  have "Z'^3 * (s * (xa - x3) - ya) - Y' =
      (Z'^2 * xa - Z'^2 * x3) * (Z' * s - M) + M * (Z'^2 * xa - S) - M * (Z'^2 * x3 - X')
      - (Z'^3 * ya - 8 * Y^4) - (Y' - (M * (S - X') - 8 * Y^4))"
    by algebra
  then show ?thesis
    using assms by (simp only: dvd_add dvd_diff dvd_mult)
qed

lemma smod_dvd_diff: "l dvd (k smod l - k)" for k l :: int
proof -
  have "k smod l - k = - (k sdiv l) * l"
    using minus_sdiv_mult_eq_smod [of k l] by simp
  then show ?thesis by simp
qed

lemma mod_dvd_diff: "l dvd (k mod l - k)" for k l :: int
  using dvd_minus_mod [of l k] by (simp add: dvd_diff_commute)

lemma canonical_eq_mod:
  fixes u t q :: int
  assumes "0 \<le> u" and "u < q" and "q dvd (u - t)"
  shows "u = t mod q"
proof -
  have "u mod q = t mod q"
    using assms(3) by (simp add: mod_eq_dvd_iff)
  then show ?thesis using assms(1,2) by simp
qed

lemma coprime_cancel_dvd:
  fixes q d u :: int
  assumes "coprime d q" and "q dvd (d * u)"
  shows "q dvd u"
  using assms by (simp add: coprime_dvd_mult_right_iff coprime_commute)

lemma field_div_spec:
  assumes p: "0 < curve_p c" and den: "0 \<le> den" and co: "coprime den (curve_p c)"
  shows "\<exists>v. field_div c num den = Inr v \<and> curve_p c dvd (v * den - num)"
proof -
  let ?p = "curve_p c"
  define d' where "d' = den smod ?p"
  define n' where "n' = num smod ?p"
  have d'_mod: "d' = den mod ?p"
    using p den by (simp add: d'_def smod_nonneg)
  then have d'0: "0 \<le> d'" using p by simp
  obtain i where i: "snd (modular_inverse d' ?p) = Inr i"
    using modular_inverse_returns [of ?p d'] p by auto
  have "gcd d' ?p = 1"
    using co p by (simp add: d'_mod coprime_iff_gcd_eq_1 [symmetric] coprime_mod_left_iff)
  then have "(d' * i) mod ?p = 1 mod ?p"
    using modular_inverse_cong(3) [OF p i] d'0 by simp
  then have inv: "?p dvd (d' * i - 1)"
    by (simp add: mod_eq_dvd_iff)
  define v where "v = (n' * i) smod ?p"
  have v: "field_div c num den = Inr v"
    using p i by (simp add: field_div_def field_mul_def bi_mod_nonzero d'_def n'_def v_def)
  have 1: "?p dvd (v - n' * i)" unfolding v_def by (rule smod_dvd_diff)
  have 2: "?p dvd (n' - num)" unfolding n'_def by (rule smod_dvd_diff)
  have 3: "?p dvd (d' - den)" unfolding d'_def by (rule smod_dvd_diff)
  have "v * den - num = den * (v - n' * i) + i * den * (n' - num) - num * i * (d' - den) + num * (d' * i - 1)"
    by algebra
  then have "?p dvd (v * den - num)"
    using 1 2 3 inv by (simp only: dvd_add dvd_diff dvd_mult)
  with v show ?thesis by blast
qed

lemma get_x_spec:
  assumes "0 < curve_p (pt_curve Q)" and "0 \<le> pt_x Q"
    and "coprime (pt_z Q) (curve_p (pt_curve Q))"
  shows "\<exists>gx. get_x Q = Inr gx \<and> 0 \<le> gx \<and> gx < curve_p (pt_curve Q) \<and>
           curve_p (pt_curve Q) dvd (gx * (pt_z Q)\<^sup>2 - pt_x Q)"
proof -
  let ?p = "curve_p (pt_curve Q)"
  define d where "d = (pt_z Q)\<^sup>2 smod ?p"
  have d_mod: "d = (pt_z Q)\<^sup>2 mod ?p"
    using assms(1) by (simp add: d_def smod_nonneg)
  have "0 \<le> d" using assms(1) by (simp add: d_mod)
  moreover have "coprime d ?p"
    using assms(1,3) by (simp add: d_mod coprime_mod_left_iff)
  ultimately obtain gx where gx: "field_div (pt_curve Q) (pt_x Q) d = Inr gx"
    and dv: "?p dvd (gx * d - pt_x Q)"
    using field_div_spec [OF assms(1), of d "pt_x Q"] by blast
  have g: "get_x Q = Inr gx"
    using assms(1) gx by (simp add: get_x_def bi_modPow_nonzero d_def)
  have "?p dvd (d - (pt_z Q)\<^sup>2)" unfolding d_def by (rule smod_dvd_diff)
  moreover have "gx * (pt_z Q)\<^sup>2 - pt_x Q = (gx * d - pt_x Q) - gx * (d - (pt_z Q)\<^sup>2)"
    by algebra
  ultimately have "?p dvd (gx * (pt_z Q)\<^sup>2 - pt_x Q)"
    using dv by (simp only: dvd_add dvd_diff dvd_mult)
  with g field_div_range [OF assms(1,2) gx] show ?thesis by blast
qed

lemma get_y_spec:
  assumes "0 < curve_p (pt_curve Q)" and "0 \<le> pt_y Q" and "0 \<le> pt_z Q"
    and "coprime (pt_z Q) (curve_p (pt_curve Q))"
  shows "\<exists>gy. get_y Q = Inr gy \<and> 0 \<le> gy \<and> gy < curve_p (pt_curve Q) \<and>
           curve_p (pt_curve Q) dvd (gy * (pt_z Q) ^ 3 - pt_y Q)"
proof -
  let ?p = "curve_p (pt_curve Q)"
  define d where "d = (pt_z Q) ^ 3 smod ?p"
  have d_mod: "d = (pt_z Q) ^ 3 mod ?p"
    using assms(1,3) by (simp add: d_def smod_nonneg)
  have "0 \<le> d" using assms(1) by (simp add: d_mod)
  moreover have "coprime d ?p"
    using assms(1,4) by (simp add: d_mod coprime_mod_left_iff)
  ultimately obtain gy where gy: "field_div (pt_curve Q) (pt_y Q) d = Inr gy"
    and dv: "?p dvd (gy * d - pt_y Q)"
    using field_div_spec [OF assms(1), of d "pt_y Q"] by blast
  have g: "get_y Q = Inr gy"
    using assms(1) gy by (simp add: get_y_def bi_modPow_nonzero d_def)
  have "?p dvd (d - (pt_z Q) ^ 3)" unfolding d_def by (rule smod_dvd_diff)
  moreover have "gy * (pt_z Q) ^ 3 - pt_y Q = (gy * d - pt_y Q) - gy * (d - (pt_z Q) ^ 3)"
    by algebra
  ultimately have "?p dvd (gy * (pt_z Q) ^ 3 - pt_y Q)"
    using dv by (simp only: dvd_add dvd_diff dvd_mult)
  with g field_div_range [OF assms(1,2) gy] show ?thesis by blast
qed

subsection \<open>The doubled point\<close>

lemma coprime_of_cong:
  fixes q u k t :: int
  assumes "coprime t q" and "q dvd (u * k - t)"
  shows "coprime u q"
proof (rule coprimeI)
  fix d assume d: "d dvd u" "d dvd q"
  then have "d dvd (u * k - t)" using assms(2) by (meson dvd_trans)
  moreover have "d dvd u * k" using d(1) by simp
  ultimately have "d dvd t"
    by (metis dvd_diff_right_iff dvd_diff_commute)
  with d(2) assms(1) show "is_unit d"
    by (meson coprime_common_divisor)
qed

lemma double_matches_tangent:
  assumes rng: "in_range c P" and cur: "pt_curve P = c"
    and c2: "coprime 2 (curve_p c)"
    and cy: "coprime (pt_y P) (curve_p c)"
    and cz: "coprime (pt_z P) (curve_p c)"
  shows "\<exists>R xa ya x3 y3.
           get_x P = Inr xa \<and> get_y P = Inr ya \<and> double c P = Inr R \<and>
           textbook_double c xa ya = Inr (x3, y3) \<and>
           get_x R = Inr x3 \<and> get_y R = Inr y3"
proof -
  define p where "p = curve_p c"
  define a where "a = curve_a c"
  define X where "X = pt_x P"
  define Y where "Y = pt_y P"
  define Z where "Z = pt_z P"
  have p: "0 < p" and X: "0 \<le> X" "X \<noteq> p" and Y: "0 \<le> Y" and Z: "0 \<le> Z"
    using rng by (auto simp: in_range_def p_def X_def Y_def Z_def)
  have pc: "0 < curve_p (pt_curve P)" using p by (simp add: cur p_def)
  \<comment> \<open>the affine coordinates of \<open>P\<close>\<close>
  obtain xa where xa: "get_x P = Inr xa" and xa0: "0 \<le> xa"
    and hx: "p dvd (xa * Z\<^sup>2 - X)"
    using get_x_spec [OF pc] X(1) cz unfolding cur p_def X_def Z_def by blast
  obtain ya where ya: "get_y P = Inr ya" and ya0: "0 \<le> ya"
    and hy: "p dvd (ya * Z ^ 3 - Y)"
    using get_y_spec [OF pc] Y Z cz unfolding cur p_def Y_def Z_def by blast
  \<comment> \<open>the slope of the tangent\<close>
  have "coprime ya p"
    using coprime_of_cong [OF _ hy] cy by (simp add: Y_def p_def)
  then have "coprime (ya * 2) p"
    using c2 by (simp add: p_def)
  then obtain s where s: "field_div c (xa * xa * 3 + a) (ya * 2) = Inr s"
    and hs0: "p dvd (s * (ya * 2) - (xa * xa * 3 + a))"
    using field_div_spec [of c "ya * 2" "xa * xa * 3 + a"] p ya0 unfolding p_def by auto
  have tan: "tangent c \<lparr>pt_curve = c, pt_x = xa, pt_y = ya, pt_z = 1\<rparr> = Inr s"
    using s by (simp add: tangent_def a_def)
  have hs: "p dvd (s * (2 * ya) - (3 * xa\<^sup>2 + a))"
    using hs0 by (simp add: power2_eq_square mult.commute)
  \<comment> \<open>the doubled point\<close>
  define S where "S = (X * Y * Y * 4) smod p"
  define Z4 where "Z4 = (Z * Z * (Z * Z)) smod p"
  define M where "M = 3 * X\<^sup>2 + a * Z4"
  define X' where "X' = (M * M - S * 2) mod p"
  define Y' where "Y' = (M * (S - X') - Y * Y * (Y * Y) * 8) mod p"
  define Z' where "Z' = (Z * Y * 2) smod p"
  define R where "R = \<lparr>pt_curve = c, pt_x = X', pt_y = Y', pt_z = Z'\<rparr>"
  have M_eq: "X * X * 3 + a * Z4 = M"
    by (simp add: M_def power2_eq_square)
  have dbl: "double c P = Inr R"
    using double_closed_form [of c P] p X(2)
    by (simp add: Let_def p_def [symmetric] a_def [symmetric] X_def [symmetric]
        Y_def [symmetric] Z_def [symmetric] S_def [symmetric] Z4_def [symmetric] M_eq
        X'_def [symmetric] Y'_def [symmetric] Z'_def [symmetric] R_def)
  have hS: "p dvd (S - 4 * X * Y\<^sup>2)"
    using smod_dvd_diff [of p "X * Y * Y * 4"]
    by (simp add: S_def power2_eq_square mult.commute mult.left_commute)
  have hZ4: "p dvd (Z4 - Z ^ 4)"
    using smod_dvd_diff [of p "Z * Z * (Z * Z)"]
    by (simp add: Z4_def power4_eq_xxxx mult.assoc)
  have hX': "p dvd (X' - (M\<^sup>2 - 2 * S))"
    using mod_dvd_diff [of p "M * M - S * 2"]
    by (simp add: X'_def power2_eq_square mult.commute)
  have e: "M * (S - X') - Y * Y * (Y * Y) * 8 = M * (S - X') - 8 * Y ^ 4"
    by algebra
  have "p dvd (Y' - (M * (S - X') - Y * Y * (Y * Y) * 8))"
    unfolding Y'_def by (rule mod_dvd_diff)
  then have hY': "p dvd (Y' - (M * (S - X') - 8 * Y ^ 4))"
    unfolding e .
  have e': "Z * Y * 2 = 2 * Y * Z"
    by algebra
  have "p dvd (Z' - Z * Y * 2)"
    unfolding Z'_def by (rule smod_dvd_diff)
  then have hZ': "p dvd (Z' - 2 * Y * Z)"
    unfolding e' .
  have "0 \<le> Z * Y * 2" using Y Z by simp
  then have Z'_mod: "Z' = (Z * Y * 2) mod p"
    using p by (simp add: Z'_def smod_nonneg)
  have "coprime (Z * Y * 2) p"
    using c2 cy cz by (simp add: p_def Y_def Z_def)
  then have cZ': "coprime Z' p"
    using p by (simp add: Z'_mod coprime_mod_left_iff)
  have Rp: "0 < curve_p (pt_curve R)" and Rx: "0 \<le> pt_x R" and Ry: "0 \<le> pt_y R"
    and Rz: "0 \<le> pt_z R" "coprime (pt_z R) (curve_p (pt_curve R))"
    using p cZ' by (simp_all add: R_def X'_def Y'_def Z'_mod p_def)
  obtain gx where gx: "get_x R = Inr gx" and gxr: "0 \<le> gx" "gx < p"
    and hgx: "p dvd (gx * Z'\<^sup>2 - X')"
    using get_x_spec [OF Rp Rx Rz(2)] by (auto simp: R_def p_def)
  obtain gy where gy: "get_y R = Inr gy" and gyr: "0 \<le> gy" "gy < p"
    and hgy: "p dvd (gy * Z' ^ 3 - Y')"
    using get_y_spec [OF Rp Ry Rz] by (auto simp: R_def p_def)
  \<comment> \<open>the x-coordinate\<close>
  define x3 where "x3 = (s * s - 2 * xa) mod p"
  have A: "p dvd (Z' * s - M)"
    unfolding M_def using hx hy hs hZ4 hZ' by (rule dbl_slope)
  have B: "p dvd (Z'\<^sup>2 * xa - S)"
    using hx hS hZ' by (rule dbl_S)
  have C: "p dvd (Z'\<^sup>2 * (s\<^sup>2 - 2 * xa) - X')"
    using A B hX' by (rule dbl_x)
  have "Z'\<^sup>2 * (gx - (s\<^sup>2 - 2 * xa)) = (gx * Z'\<^sup>2 - X') - (Z'\<^sup>2 * (s\<^sup>2 - 2 * xa) - X')"
    by algebra
  then have "p dvd (Z'\<^sup>2 * (gx - (s\<^sup>2 - 2 * xa)))"
    using hgx C by (simp only: dvd_diff)
  moreover have "coprime (Z'\<^sup>2) p"
    using cZ' by simp
  ultimately have "p dvd (gx - (s\<^sup>2 - 2 * xa))"
    by (rule coprime_cancel_dvd [rotated])
  then have "gx = (s\<^sup>2 - 2 * xa) mod p"
    using gxr by (intro canonical_eq_mod) simp_all
  then have gx3: "gx = x3"
    by (simp add: x3_def power2_eq_square)
  \<comment> \<open>the y-coordinate\<close>
  define y3 where "y3 = (s * (xa - x3) - ya) mod p"
  have hx3: "p dvd (Z'\<^sup>2 * x3 - X')"
    using hgx unfolding gx3 by (simp only: mult.commute)
  have D: "p dvd (Z' ^ 3 * ya - 8 * Y ^ 4)"
    using hy hZ' by (rule dbl_ya)
  have E: "p dvd (Z' ^ 3 * (s * (xa - x3) - ya) - Y')"
    using A B hx3 D hY' by (rule dbl_y)
  have "Z' ^ 3 * (gy - (s * (xa - x3) - ya)) = (gy * Z' ^ 3 - Y') - (Z' ^ 3 * (s * (xa - x3) - ya) - Y')"
    by algebra
  then have "p dvd (Z' ^ 3 * (gy - (s * (xa - x3) - ya)))"
    using hgy E by (simp only: dvd_diff)
  moreover have "coprime (Z' ^ 3) p"
    using cZ' by simp
  ultimately have "p dvd (gy - (s * (xa - x3) - ya))"
    by (rule coprime_cancel_dvd [rotated])
  then have "gy = (s * (xa - x3) - ya) mod p"
    using gyr by (intro canonical_eq_mod) simp_all
  then have gy3: "gy = y3"
    by (simp add: y3_def)
  have "textbook_double c xa ya = Inr (x3, y3)"
    by (simp add: textbook_double_def tan Let_def x3_def y3_def p_def)
  with xa ya dbl gx gy gx3 gy3 show ?thesis by blast
qed

text \<open>
  Claim C3.  On a curve over an odd prime \<open>p\<close>, for every finite point \<open>P\<close> with
  canonical coordinates and \<open>y \<noteq> 0\<close>, the affine coordinates of \<^verbatim>\<open>double(P)\<close> are
  those of the textbook doubling of the affine point of \<open>P\<close>, whose slope
  \<open>(3x\<^sup>2 + a) / (2y)\<close> is computed by \<^verbatim>\<open>tangent\<close>.  The point need not lie on the curve.
\<close>

theorem double_textbook:
  assumes "is_prime (curve_p c)" and "2 < curve_p c"
    and "in_range c P" and "pt_curve P = c"
    and "pt_y P \<noteq> 0" and "pt_z P \<noteq> 0"
  shows "\<exists>R xa ya x3 y3.
           get_x P = Inr xa \<and> get_y P = Inr ya \<and> double c P = Inr R \<and>
           textbook_double c xa ya = Inr (x3, y3) \<and>
           get_x R = Inr x3 \<and> get_y R = Inr y3"
proof -
  have nd: "\<not> curve_p c dvd k" if "0 < k" "k < curve_p c" for k
    using that by (auto dest: zdvd_imp_le)
  have "0 < pt_y P" "pt_y P < curve_p c" "0 < pt_z P" "pt_z P < curve_p c"
    using assms(3,5,6) by (auto simp: in_range_def)
  then have "coprime (pt_y P) (curve_p c)" "coprime (pt_z P) (curve_p c)"
    using is_prime_coprime [OF assms(1)] nd by blast+
  moreover have "\<not> curve_p c dvd 2"
    using nd [of 2] assms(2) by simp
  then have "coprime 2 (curve_p c)"
    by (rule is_prime_coprime [OF assms(1)])
  ultimately show ?thesis
    using double_matches_tangent [OF assms(3,4)] by blast
qed

theorem double_textbook_witness:
  "is_prime (curve_p curve_5_0_4) \<and> 2 < curve_p curve_5_0_4 \<and>
   in_range curve_5_0_4 \<lparr>pt_curve = curve_5_0_4, pt_x = 0, pt_y = 1, pt_z = 2\<rparr> \<and>
   touches curve_5_0_4 \<lparr>pt_curve = curve_5_0_4, pt_x = 0, pt_y = 1, pt_z = 2\<rparr> = Inr True \<and>
   (\<exists>R xa ya x3 y3.
      get_x \<lparr>pt_curve = curve_5_0_4, pt_x = 0, pt_y = 1, pt_z = 2\<rparr> = Inr xa \<and>
      get_y \<lparr>pt_curve = curve_5_0_4, pt_x = 0, pt_y = 1, pt_z = 2\<rparr> = Inr ya \<and>
      double curve_5_0_4 \<lparr>pt_curve = curve_5_0_4, pt_x = 0, pt_y = 1, pt_z = 2\<rparr> = Inr R \<and>
      textbook_double curve_5_0_4 xa ya = Inr (x3, y3) \<and>
      get_x R = Inr x3 \<and> get_y R = Inr y3)"
proof -
  have h: "is_prime (curve_p curve_5_0_4)" "2 < curve_p curve_5_0_4"
    "in_range curve_5_0_4 \<lparr>pt_curve = curve_5_0_4, pt_x = 0, pt_y = 1, pt_z = 2\<rparr>"
    "touches curve_5_0_4 \<lparr>pt_curve = curve_5_0_4, pt_x = 0, pt_y = 1, pt_z = 2\<rparr> = Inr True"
    by code_simp+
  show ?thesis
    using h double_textbook [OF h(1,2,3)] by simp
qed


text \<open>
  The same on secp256k1 at its generator, from the coprimality of \<open>2\<close>, \<open>y\<close> and \<open>z\<close>
  with the modulus alone.
\<close>

lemma double_textbook_G_values:
  "get_x secp256k1_G = Inr (pt_x secp256k1_G)"
  "get_y secp256k1_G = Inr (pt_y secp256k1_G)"
  by code_simp+

lemma coprime_G:
  "coprime 2 (curve_p secp256k1)"
  "coprime (pt_y secp256k1_G) (curve_p secp256k1)"
  "coprime (pt_z secp256k1_G) (curve_p secp256k1)"
  by code_simp+

lemma double_textbook_G:
  "\<exists>R x3 y3.
     double secp256k1 secp256k1_G = Inr R \<and>
     textbook_double secp256k1 (pt_x secp256k1_G) (pt_y secp256k1_G) = Inr (x3, y3) \<and>
     get_x R = Inr x3 \<and> get_y R = Inr y3"
proof -
  have "in_range secp256k1 secp256k1_G" "pt_curve secp256k1_G = secp256k1"
    by (simp_all add: in_range_def secp256k1_G_def secp256k1_def)
  then obtain R xa ya x3 y3 where
    "get_x secp256k1_G = Inr xa" "get_y secp256k1_G = Inr ya"
    "double secp256k1 secp256k1_G = Inr R"
    "textbook_double secp256k1 xa ya = Inr (x3, y3)"
    "get_x R = Inr x3" "get_y R = Inr y3"
    using double_matches_tangent [OF _ _ coprime_G] by blast
  moreover from this have "xa = pt_x secp256k1_G" "ya = pt_y secp256k1_G"
    by (simp_all only: double_textbook_G_values sum.inject)
  ultimately show ?thesis by blast
qed

section \<open>Text form of a point\<close>

lemma hex_digit_value_digit: "\<forall>d \<in> {..<16::nat}. hex_digit_value (hex_digit d) = int d"
  by code_simp

lemma hex_digit_in_set: "hex_digit d \<in> set ''0123456789abcdef''"
  unfolding hex_digit_def by (rule nth_mem) simp

lemma hex_digits_chars:
  "set (hex_digits k) \<subseteq> set ''0123456789abcdef''"
proof (induction k rule: hex_digits.induct)
  case (1 k)
  show ?case
  proof (cases "k < 16")
    case True
    then show ?thesis
      using hex_digit_in_set [of "nat k"] by (subst hex_digits.simps) simp
  next
    case False
    then show ?thesis
      using "1.IH" hex_digit_in_set [of "nat (k mod 16)"] by (subst hex_digits.simps) simp
  qed
qed

lemma hex_digits_value:
  assumes "0 \<le> k"
  shows "hex_value (hex_digits k) = k"
  using assms
proof (induction k rule: hex_digits.induct)
  case (1 k)
  show ?case
  proof (cases "k < 16")
    case True
    then have "nat k \<in> {..<16}" by simp
    then have "hex_digit_value (hex_digit (nat k)) = int (nat k)"
      using hex_digit_value_digit by blast
    then show ?thesis
      using True "1.prems" by (subst hex_digits.simps) (simp add: hex_value_def)
  next
    case False
    have "nat (k mod 16) \<in> {..<16}" by simp
    then have "hex_digit_value (hex_digit (nat (k mod 16))) = int (nat (k mod 16))"
      using hex_digit_value_digit by blast
    moreover have "hex_value (hex_digits (k div 16)) = k div 16"
      using "1.IH" False "1.prems" by simp
    ultimately show ?thesis
      using False by (subst hex_digits.simps) (simp add: hex_value_def)
  qed
qed

lemma bi_toString16_nonneg:
  assumes "0 \<le> k"
  shows "set (bi_toString16 k) \<subseteq> set ''0123456789abcdef''" and "hex_value (bi_toString16 k) = k"
  using assms hex_digits_chars [of k] hex_digits_value [of k]
  by (simp_all add: bi_toString16_def)

subsection \<open>The affine coordinates\<close>

text \<open>
  A Jacobian triple \<open>(X, Y, Z)\<close> stands for the affine pair \<open>(X / Z\<^sup>2, Y / Z\<^sup>3)\<close> of the
  field: the affine x is the one number in the range from \<open>0\<close> to \<open>p - 1\<close> whose
  product with \<open>Z\<^sup>2\<close> is congruent to \<open>X\<close>, and likewise for y and \<open>Z\<^sup>3\<close>.  For a point
  with canonical coordinates and \<open>Z\<close> coprime to the modulus, \<^verbatim>\<open>get_x\<close> and
  \<^verbatim>\<open>get_y\<close> return exactly these numbers.
\<close>

lemma cong_cancel_unique:
  fixes q d u v :: int
  assumes "coprime d q" and "0 \<le> u" and "u < q" and "0 \<le> v" and "v < q"
    and "(u * d) mod q = (v * d) mod q"
  shows "u = v"
proof -
  have "q dvd (u * d - v * d)"
    using assms(6) by (simp add: mod_eq_dvd_iff)
  moreover have "u * d - v * d = d * (u - v)"
    by algebra
  ultimately have "q dvd (d * (u - v))"
    by simp
  then have "q dvd (u - v)"
    by (rule coprime_cancel_dvd [OF assms(1)])
  then have "u mod q = v mod q"
    by (simp add: mod_eq_dvd_iff)
  then show ?thesis
    using assms(2-5) by simp
qed

lemma affine_coordinates:
  assumes rng: "in_range (pt_curve Q) Q"
    and cz: "coprime (pt_z Q) (curve_p (pt_curve Q))"
    and gx: "get_x Q = Inr gx" and gy: "get_y Q = Inr gy"
  shows "0 \<le> gx \<and> gx < curve_p (pt_curve Q) \<and>
         (gx * (pt_z Q)\<^sup>2) mod curve_p (pt_curve Q) = pt_x Q \<and>
         0 \<le> gy \<and> gy < curve_p (pt_curve Q) \<and>
         (gy * (pt_z Q) ^ 3) mod curve_p (pt_curve Q) = pt_y Q \<and>
         (\<forall>x y. 0 \<le> x \<and> x < curve_p (pt_curve Q) \<and>
                (x * (pt_z Q)\<^sup>2) mod curve_p (pt_curve Q) = pt_x Q \<and>
                0 \<le> y \<and> y < curve_p (pt_curve Q) \<and>
                (y * (pt_z Q) ^ 3) mod curve_p (pt_curve Q) = pt_y Q
                \<longrightarrow> x = gx \<and> y = gy)"
proof -
  let ?p = "curve_p (pt_curve Q)"
  have p: "0 < ?p" and X: "0 \<le> pt_x Q" "pt_x Q < ?p" and Y: "0 \<le> pt_y Q" "pt_y Q < ?p"
    and Z: "0 \<le> pt_z Q"
    using rng by (auto simp: in_range_def)
  have x: "0 \<le> gx" "gx < ?p" "?p dvd (gx * (pt_z Q)\<^sup>2 - pt_x Q)"
    using get_x_spec [OF p X(1) cz] gx by auto
  have y: "0 \<le> gy" "gy < ?p" "?p dvd (gy * (pt_z Q) ^ 3 - pt_y Q)"
    using get_y_spec [OF p Y(1) Z cz] gy by auto
  have "(gx * (pt_z Q)\<^sup>2) mod ?p = pt_x Q mod ?p"
    using x(3) by (simp add: mod_eq_dvd_iff)
  then have mx: "(gx * (pt_z Q)\<^sup>2) mod ?p = pt_x Q"
    using X by simp
  have "(gy * (pt_z Q) ^ 3) mod ?p = pt_y Q mod ?p"
    using y(3) by (simp add: mod_eq_dvd_iff)
  then have my: "(gy * (pt_z Q) ^ 3) mod ?p = pt_y Q"
    using Y by simp
  have c2: "coprime ((pt_z Q)\<^sup>2) ?p" and c3: "coprime ((pt_z Q) ^ 3) ?p"
    using cz by simp_all
  have "x' = gx \<and> y' = gy"
    if "0 \<le> x' \<and> x' < ?p \<and> (x' * (pt_z Q)\<^sup>2) mod ?p = pt_x Q \<and>
        0 \<le> y' \<and> y' < ?p \<and> (y' * (pt_z Q) ^ 3) mod ?p = pt_y Q" for x' y'
  proof
    show "x' = gx"
      using that x(1,2) mx by (rule_tac cong_cancel_unique [OF c2]) simp_all
    show "y' = gy"
      using that y(1,2) my by (rule_tac cong_cancel_unique [OF c3]) simp_all
  qed
  with x(1,2) y(1,2) mx my show ?thesis by blast
qed

subsection \<open>The text form\<close>

text \<open>
  Claim C9.  On a non-zero modulus the text form of a point with the sentinel X equal
  to \<open>p\<close> is the token \<^verbatim>\<open>identity_point\<close>; the text form of any other point is an
  opening parenthesis, the hexadecimal form of what \<^verbatim>\<open>get_x\<close> returns, a comma and a
  space, the hexadecimal form of what \<^verbatim>\<open>get_y\<close> returns, and a closing parenthesis.
  For a point with canonical coordinates each number is written with the digits
  \<^verbatim>\<open>0123456789abcdef\<close> alone, so in lowercase and without a prefix, and the digits
  denote that number.  For a finite point (canonical coordinates, \<open>Z\<close> coprime to the
  modulus, which on a prime modulus means \<open>Z \<noteq> 0\<close>) the two numbers are the affine
  coordinates: they lie in the range from \<open>0\<close> to \<open>p - 1\<close>, satisfy
  \<open>x Z\<^sup>2 \<equiv> X\<close> and \<open>y Z\<^sup>3 \<equiv> Y (mod p)\<close>, and are the only such pair.
\<close>

theorem toString_format:
  assumes "curve_p (pt_curve Q) \<noteq> 0"
  shows "(pt_x Q = curve_p (pt_curve Q) \<longrightarrow> toString Q = Inr ''identity_point'') \<and>
         (pt_x Q \<noteq> curve_p (pt_curve Q) \<longrightarrow>
            (\<exists>gx gy. get_x Q = Inr gx \<and> get_y Q = Inr gy \<and>
               toString Q = Inr (''('' @ bi_toString16 gx @ '', '' @ bi_toString16 gy @ '')'') \<and>
               (in_range (pt_curve Q) Q \<longrightarrow>
                  set (bi_toString16 gx) \<subseteq> set ''0123456789abcdef'' \<and>
                  hex_value (bi_toString16 gx) = gx \<and>
                  set (bi_toString16 gy) \<subseteq> set ''0123456789abcdef'' \<and>
                  hex_value (bi_toString16 gy) = gy) \<and>
               (in_range (pt_curve Q) Q \<and> coprime (pt_z Q) (curve_p (pt_curve Q)) \<longrightarrow>
                  0 \<le> gx \<and> gx < curve_p (pt_curve Q) \<and>
                  (gx * (pt_z Q)\<^sup>2) mod curve_p (pt_curve Q) = pt_x Q \<and>
                  0 \<le> gy \<and> gy < curve_p (pt_curve Q) \<and>
                  (gy * (pt_z Q) ^ 3) mod curve_p (pt_curve Q) = pt_y Q \<and>
                  (\<forall>x y. 0 \<le> x \<and> x < curve_p (pt_curve Q) \<and>
                         (x * (pt_z Q)\<^sup>2) mod curve_p (pt_curve Q) = pt_x Q \<and>
                         0 \<le> y \<and> y < curve_p (pt_curve Q) \<and>
                         (y * (pt_z Q) ^ 3) mod curve_p (pt_curve Q) = pt_y Q
                         \<longrightarrow> x = gx \<and> y = gy))))"
proof (intro conjI impI)
  assume "pt_x Q = curve_p (pt_curve Q)"
  then show "toString Q = Inr ''identity_point''"
    by (simp add: toString_def)
next
  let ?c = "pt_curve Q"
  assume fin: "pt_x Q \<noteq> curve_p ?c"
  obtain gx where gx: "get_x Q = Inr gx"
    using field_div_returns [OF assms] assms by (auto simp: get_x_def bi_modPow_nonzero)
  obtain gy where gy: "get_y Q = Inr gy"
    using field_div_returns [OF assms] assms by (auto simp: get_y_def bi_modPow_nonzero)
  have str: "toString Q = Inr (''('' @ bi_toString16 gx @ '', '' @ bi_toString16 gy @ '')'')"
    using fin by (simp add: toString_def gx gy)
  have "0 \<le> gx \<and> 0 \<le> gy" if "in_range ?c Q"
  proof -
    have p: "0 < curve_p ?c" and xy: "0 \<le> pt_x Q" "0 \<le> pt_y Q"
      using that by (auto simp: in_range_def)
    have "field_div ?c (pt_x Q) ((pt_z Q)\<^sup>2 smod curve_p ?c) = Inr gx"
      using gx assms by (simp add: get_x_def bi_modPow_nonzero)
    moreover have "field_div ?c (pt_y Q) ((pt_z Q) ^ 3 smod curve_p ?c) = Inr gy"
      using gy assms by (simp add: get_y_def bi_modPow_nonzero)
    ultimately show ?thesis
      using field_div_range(1) [OF p] xy by blast
  qed
  then have hex: "in_range ?c Q \<longrightarrow>
             set (bi_toString16 gx) \<subseteq> set ''0123456789abcdef'' \<and>
             hex_value (bi_toString16 gx) = gx \<and>
             set (bi_toString16 gy) \<subseteq> set ''0123456789abcdef'' \<and>
             hex_value (bi_toString16 gy) = gy"
    using bi_toString16_nonneg by blast
  have aff: "in_range ?c Q \<and> coprime (pt_z Q) (curve_p ?c) \<longrightarrow>
                  0 \<le> gx \<and> gx < curve_p ?c \<and>
                  (gx * (pt_z Q)\<^sup>2) mod curve_p ?c = pt_x Q \<and>
                  0 \<le> gy \<and> gy < curve_p ?c \<and>
                  (gy * (pt_z Q) ^ 3) mod curve_p ?c = pt_y Q \<and>
                  (\<forall>x y. 0 \<le> x \<and> x < curve_p ?c \<and>
                         (x * (pt_z Q)\<^sup>2) mod curve_p ?c = pt_x Q \<and>
                         0 \<le> y \<and> y < curve_p ?c \<and>
                         (y * (pt_z Q) ^ 3) mod curve_p ?c = pt_y Q
                         \<longrightarrow> x = gx \<and> y = gy)"
    using affine_coordinates [OF _ _ gx gy] by blast
  show "\<exists>gx gy. get_x Q = Inr gx \<and> get_y Q = Inr gy \<and>
               toString Q = Inr (''('' @ bi_toString16 gx @ '', '' @ bi_toString16 gy @ '')'') \<and>
               (in_range (pt_curve Q) Q \<longrightarrow>
                  set (bi_toString16 gx) \<subseteq> set ''0123456789abcdef'' \<and>
                  hex_value (bi_toString16 gx) = gx \<and>
                  set (bi_toString16 gy) \<subseteq> set ''0123456789abcdef'' \<and>
                  hex_value (bi_toString16 gy) = gy) \<and>
               (in_range (pt_curve Q) Q \<and> coprime (pt_z Q) (curve_p (pt_curve Q)) \<longrightarrow>
                  0 \<le> gx \<and> gx < curve_p (pt_curve Q) \<and>
                  (gx * (pt_z Q)\<^sup>2) mod curve_p (pt_curve Q) = pt_x Q \<and>
                  0 \<le> gy \<and> gy < curve_p (pt_curve Q) \<and>
                  (gy * (pt_z Q) ^ 3) mod curve_p (pt_curve Q) = pt_y Q \<and>
                  (\<forall>x y. 0 \<le> x \<and> x < curve_p (pt_curve Q) \<and>
                         (x * (pt_z Q)\<^sup>2) mod curve_p (pt_curve Q) = pt_x Q \<and>
                         0 \<le> y \<and> y < curve_p (pt_curve Q) \<and>
                         (y * (pt_z Q) ^ 3) mod curve_p (pt_curve Q) = pt_y Q
                         \<longrightarrow> x = gx \<and> y = gy))"
    using gx gy str hex aff by (intro exI [of _ gx] exI [of _ gy] conjI)
qed

theorem toString_format_witness:
  "curve_p (pt_curve \<lparr>pt_curve = curve_5_0_4, pt_x = 2, pt_y = 3, pt_z = 2\<rparr>) \<noteq> 0 \<and>
   pt_x \<lparr>pt_curve = curve_5_0_4, pt_x = 2, pt_y = 3, pt_z = 2\<rparr> \<noteq> curve_p curve_5_0_4 \<and>
   in_range curve_5_0_4 \<lparr>pt_curve = curve_5_0_4, pt_x = 2, pt_y = 3, pt_z = 2\<rparr> \<and>
   coprime (2::int) (curve_p curve_5_0_4) \<and>
   get_x \<lparr>pt_curve = curve_5_0_4, pt_x = 2, pt_y = 3, pt_z = 2\<rparr> = Inr 3 \<and>
   get_y \<lparr>pt_curve = curve_5_0_4, pt_x = 2, pt_y = 3, pt_z = 2\<rparr> = Inr 1 \<and>
   toString \<lparr>pt_curve = curve_5_0_4, pt_x = 2, pt_y = 3, pt_z = 2\<rparr> = Inr ''(3, 1)'' \<and>
   pt_x (identity secp256k1) = curve_p (pt_curve (identity secp256k1)) \<and>
   toString (identity secp256k1) = Inr ''identity_point'' \<and>
   in_range secp256k1 secp256k1_G \<and>
   toString secp256k1_G =
     Inr ''(79be667ef9dcbbac55a06295ce870b07029bfcdb2dce28d959f2815b16f81798, 483ada7726a3c4655da4fbfc0e1108a8fd17b448a68554199c47d08ffb10d4b8)''"
proof -
  let ?Q = "\<lparr>pt_curve = curve_5_0_4, pt_x = 2, pt_y = 3, pt_z = 2\<rparr>"
  have h: "curve_p (pt_curve ?Q) \<noteq> 0" "pt_x ?Q \<noteq> curve_p (pt_curve ?Q)"
    "in_range (pt_curve ?Q) ?Q" "coprime (pt_z ?Q) (curve_p (pt_curve ?Q))"
    by code_simp+
  obtain gx gy where g: "get_x ?Q = Inr gx" "get_y ?Q = Inr gy"
    and str: "toString ?Q = Inr (''('' @ bi_toString16 gx @ '', '' @ bi_toString16 gy @ '')'')"
    and u: "\<forall>x y. 0 \<le> x \<and> x < curve_p (pt_curve ?Q) \<and>
                (x * (pt_z ?Q)\<^sup>2) mod curve_p (pt_curve ?Q) = pt_x ?Q \<and>
                0 \<le> y \<and> y < curve_p (pt_curve ?Q) \<and>
                (y * (pt_z ?Q) ^ 3) mod curve_p (pt_curve ?Q) = pt_y ?Q
                \<longrightarrow> x = gx \<and> y = gy"
    using toString_format [OF h(1)] h(2,3,4) by blast
  have "3 = gx \<and> 1 = gy"
    using u [rule_format, of 3 1] by (simp add: curve_5_0_4_def)
  with g str have q: "get_x ?Q = Inr 3" "get_y ?Q = Inr 1" "toString ?Q = Inr ''(3, 1)''"
    by (auto simp: bi_toString16_def hex_digits.simps hex_digit_def)
  have hG: "curve_p (pt_curve secp256k1_G) \<noteq> 0"
    "pt_x secp256k1_G \<noteq> curve_p (pt_curve secp256k1_G)"
    "in_range secp256k1 secp256k1_G"
    by (simp_all add: in_range_def secp256k1_G_def secp256k1_def)
  have i: "curve_p (pt_curve (identity secp256k1)) \<noteq> 0"
    "pt_x (identity secp256k1) = curve_p (pt_curve (identity secp256k1))"
    by (simp_all add: identity_def secp256k1_def)
  have "toString secp256k1_G =
     Inr ''(79be667ef9dcbbac55a06295ce870b07029bfcdb2dce28d959f2815b16f81798, 483ada7726a3c4655da4fbfc0e1108a8fd17b448a68554199c47d08ffb10d4b8)''"
    by code_simp
  moreover have "toString (identity secp256k1) = Inr ''identity_point''"
    using toString_format [OF i(1)] i(2) by blast
  ultimately show ?thesis
    using h q hG(3) i(2) by simp
qed

end
